theory Spec2Isabelle
  imports Complex_Main "HOL-Library.Multiset"
begin

section \<open>The sliding-tile puzzle engine\<close>

text \<open>
  The repository holds two React components with the same puzzle engine:
  \<^verbatim>\<open>ValentineExperience\<close> (src/app/components/ValentineExperience.tsx) and
  \<^verbatim>\<open>SlidingPuzzle\<close> (the second unnamed source file). Their functions
  \<^verbatim>\<open>getValidMoves\<close>, \<^verbatim>\<open>shufflePuzzle\<close> and \<^verbatim>\<open>checkIfSolved\<close> are the same text;
  \<^verbatim>\<open>SlidingPuzzle\<close> keeps a move counter in addition.

  The numbers of the tiles, cells and indices are modelled as \<open>int\<close>: they are integers
  far below \<open>2^53\<close>. The value of \<^verbatim>\<open>Math.random()\<close> is a \<open>real\<close>, and its product with
  a length is rounded as the binary64 product is. The component state (the \<^verbatim>\<open>useState\<close> cells) is a record
  that every handler takes and returns. A \<^verbatim>\<open>TypeError\<close> (a property access on
  \<^verbatim>\<open>undefined\<close>) is the left injection of a sum.
\<close>

subsection \<open>Data\<close>

text \<open>\<^verbatim>\<open>interface Tile { id: number; currentPosition: number; }\<close>. The field \<^verbatim>\<open>id\<close> is
  named \<open>id_tile\<close>, since \<open>id\<close> is the identity function of HOL.\<close>

record Tile =
  id_tile :: int
  currentPosition :: int

datatype error = TypeError

text \<open>The state of \<^verbatim>\<open>ValentineExperience\<close> that the engine reads and writes: \<^verbatim>\<open>tiles\<close>
  and \<^verbatim>\<open>isSolved\<close>. The presentation state (stage, button position, timers) is not part
  of the engine. \<^verbatim>\<open>SlidingPuzzle\<close> adds \<^verbatim>\<open>moves\<close> and \<^verbatim>\<open>hasStarted\<close>.\<close>

record puzzle =
  tiles :: "Tile list"
  isSolved :: bool

record sliding = puzzle +
  moves :: int
  hasStarted :: bool

definition totalTiles :: "int \<Rightarrow> int" where
  "totalTiles gridSize = gridSize * gridSize"

definition blankTileId :: "int \<Rightarrow> int" where
  "blankTileId gridSize = totalTiles gridSize - 1"

subsection \<open>getValidMoves\<close>

text \<open>The remainder operator \<^verbatim>\<open>%\<close> of JavaScript truncates towards zero: the result has
  the sign of the dividend. \<^verbatim>\<open>Math.floor(a / b)\<close> on integers with \<open>b \<noteq> 0\<close> is the floor
  division \<open>div\<close> of HOL. Both are faithful for a grid size other than zero.\<close>

definition js_rem :: "int \<Rightarrow> int \<Rightarrow> int" where
  "js_rem a b = (if a < 0 then - ((- a) mod \<bar>b\<bar>) else a mod \<bar>b\<bar>)"

definition getValidMoves :: "int \<Rightarrow> int \<Rightarrow> int list" where
  "getValidMoves position gridSize =
     (let row = position div gridSize;
          col = js_rem position gridSize
      in (if row > 0 then [position - gridSize] else []) @
         (if row < gridSize - 1 then [position + gridSize] else []) @
         (if col > 0 then [position - 1] else []) @
         (if col < gridSize - 1 then [position + 1] else []))"

subsection \<open>shufflePuzzle\<close>

text \<open>\<^verbatim>\<open>Array.prototype.findIndex\<close>: the first index whose element satisfies the
  predicate; \<open>None\<close> stands for the result \<open>-1\<close>.\<close>

fun findIndex :: "('a \<Rightarrow> bool) \<Rightarrow> 'a list \<Rightarrow> nat option" where
  "findIndex P [] = None"
| "findIndex P (x # xs) = (if P x then Some 0 else map_option Suc (findIndex P xs))"

text \<open>
  The product \<^verbatim>\<open>Math.random() * validMoves.length\<close> is a product of binary64 numbers:
  the exact product rounded to the nearest binary64 number, a tie to the one with the even
  significand. \<open>roundHalfEven\<close> rounds to the nearest integer in this way.
  \<open>roundScaled\<close> doubles its argument until it is at least \<open>2\<^sup>5\<^sup>2\<close>, where the
  binary64 numbers are the integers, at most 1074 times (further down the numbers are
  subnormal and their distance stays \<open>2\<^sup>-\<^sup>1\<^sup>0\<^sup>7\<^sup>4\<close>), rounds there and scales back.
  This is the rounding of every real number of absolute value below \<open>2\<^sup>5\<^sup>3\<close>; the products
  of the loop are below 4, since \<^verbatim>\<open>Math.random()\<close> is below 1 and \<^verbatim>\<open>validMoves\<close> has at
  most four elements.
\<close>

definition roundHalfEven :: "real \<Rightarrow> real" where
  "roundHalfEven y =
     (let f = \<lfloor>y\<rfloor>; d = y - of_int f
      in if d < 1 / 2 then of_int f
         else if 1 / 2 < d then of_int f + 1
         else if even f then of_int f else of_int f + 1)"

fun roundScaled :: "nat \<Rightarrow> real \<Rightarrow> real" where
  "roundScaled 0 x = roundHalfEven x"
| "roundScaled (Suc k) x =
     (if 4503599627370496 \<le> x then roundHalfEven x else roundScaled k (2 * x) / 2)"

definition double_round :: "real \<Rightarrow> real" where
  "double_round x = (if x < 0 then - roundScaled 1074 (- x) else roundScaled 1074 x)"

definition double_mul :: "real \<Rightarrow> real \<Rightarrow> real" where
  "double_mul a b = double_round (a * b)"

text \<open>
  One iteration of the \<^verbatim>\<open>for\<close> loop of \<^verbatim>\<open>shufflePuzzle\<close>. The argument \<open>r\<close> is the value
  that \<^verbatim>\<open>Math.random()\<close> returns in this iteration: a binary64 number in \<open>[0, 1)\<close>, so
  at most \<open>1 - 2\<^sup>-\<^sup>5\<^sup>3\<close>, the largest of them. The state of
  the loop is the array \<^verbatim>\<open>shuffled\<close> and the variable \<^verbatim>\<open>blankPos\<close>.

  An index outside of \<^verbatim>\<open>validMoves\<close> reads \<^verbatim>\<open>undefined\<close>; then no tile is found,
  \<^verbatim>\<open>tileIndex\<close> is \<open>-1\<close> and the assignment to \<^verbatim>\<open>shuffled[-1].currentPosition\<close> throws.
  The two assignments happen one after the other, the second on the updated array.
\<close>

definition shuffleStep :: "int \<Rightarrow> real \<Rightarrow> Tile list \<times> int \<Rightarrow> error + Tile list \<times> int" where
  "shuffleStep gridSize r st =
     (let shuffled = fst st; blankPos = snd st;
          validMoves = getValidMoves blankPos gridSize;
          k = \<lfloor>double_mul r (real (length validMoves))\<rfloor>
      in if k < 0 \<or> int (length validMoves) \<le> k then Inl TypeError
         else
           let randomMove = validMoves ! nat k in
           (case findIndex (\<lambda>t. currentPosition t = blankPos) shuffled of
              None \<Rightarrow> Inl TypeError
            | Some blankIndex \<Rightarrow>
               (case findIndex (\<lambda>t. currentPosition t = randomMove) shuffled of
                  None \<Rightarrow> Inl TypeError
                | Some tileIndex \<Rightarrow>
                    let shuffled1 = shuffled[blankIndex :=
                          (shuffled ! blankIndex)\<lparr>currentPosition := randomMove\<rparr>];
                        shuffled2 = shuffled1[tileIndex :=
                          (shuffled1 ! tileIndex)\<lparr>currentPosition := blankPos\<rparr>]
                    in Inr (shuffled2, randomMove))))"

text \<open>The loop \<^verbatim>\<open>for (let i = 0; i < 100; i++)\<close>; \<open>rnd i\<close> is the random number drawn
  in iteration \<open>i\<close>.\<close>

function shuffleLoop :: "int \<Rightarrow> (nat \<Rightarrow> real) \<Rightarrow> nat \<Rightarrow> Tile list \<times> int \<Rightarrow> error + Tile list" where
  "shuffleLoop gridSize rnd i st =
     (if i < 100 then
        (case shuffleStep gridSize (rnd i) st of
           Inl e \<Rightarrow> Inl e
         | Inr st' \<Rightarrow> shuffleLoop gridSize rnd (i + 1) st')
      else Inr (fst st))"
  by pat_completeness auto
termination
  by (relation "measure (\<lambda>(gridSize, rnd, i, st). 100 - i)") auto

declare shuffleLoop.simps [simp del]

definition shufflePuzzle :: "int \<Rightarrow> (nat \<Rightarrow> real) \<Rightarrow> Tile list \<Rightarrow> error + Tile list" where
  "shufflePuzzle gridSize rnd tiles0 = shuffleLoop gridSize rnd 0 (tiles0, blankTileId gridSize)"

subsection \<open>initializePuzzle\<close>

text \<open>\<^verbatim>\<open>Array.from({ length: totalTiles }, (_, i) => ({ id: i, currentPosition: i }))\<close>\<close>

definition initialTiles :: "int \<Rightarrow> Tile list" where
  "initialTiles gridSize =
     map (\<lambda>i. \<lparr>id_tile = i, currentPosition = i\<rparr>) [0..totalTiles gridSize - 1]"

definition initializePuzzle :: "int \<Rightarrow> (nat \<Rightarrow> real) \<Rightarrow> puzzle \<Rightarrow> error + puzzle" where
  "initializePuzzle gridSize rnd s =
     (case shufflePuzzle gridSize rnd (initialTiles gridSize) of
        Inl e \<Rightarrow> Inl e
      | Inr shuffled \<Rightarrow> Inr (s\<lparr>tiles := shuffled, isSolved := False\<rparr>))"

subsection \<open>checkIfSolved and handleTileClick\<close>

text \<open>The test \<^verbatim>\<open>currentTiles.every(tile => tile.id === tile.currentPosition)\<close>.\<close>

definition solvedBoard :: "Tile list \<Rightarrow> bool" where
  "solvedBoard currentTiles = list_all (\<lambda>tile. id_tile tile = currentPosition tile) currentTiles"

text \<open>\<^verbatim>\<open>checkIfSolved\<close> sets the flag when the test holds and leaves it as it is
  otherwise. (In \<^verbatim>\<open>ValentineExperience\<close> it also starts the timer that changes the stage
  one second later; the stage is outside of the engine.) The function is the same in both
  components, so it is stated for every extension of the record \<open>puzzle\<close>.\<close>

definition checkIfSolved :: "'a puzzle_scheme \<Rightarrow> Tile list \<Rightarrow> 'a puzzle_scheme" where
  "checkIfSolved s currentTiles =
     (let solved = solvedBoard currentTiles
      in if solved then s\<lparr>isSolved := True\<rparr> else s)"

text \<open>The array that \<^verbatim>\<open>tiles.map\<close> builds in \<^verbatim>\<open>handleTileClick\<close>.\<close>

definition newTiles :: "int \<Rightarrow> Tile list \<Rightarrow> Tile \<Rightarrow> Tile \<Rightarrow> Tile list" where
  "newTiles gridSize ts clickedTile blankTile =
     map (\<lambda>t. if id_tile t = id_tile clickedTile
               then t\<lparr>currentPosition := currentPosition blankTile\<rparr>
               else if id_tile t = blankTileId gridSize
               then t\<lparr>currentPosition := currentPosition clickedTile\<rparr>
               else t) ts"

text \<open>\<^verbatim>\<open>handleTileClick\<close> of \<^verbatim>\<open>ValentineExperience\<close>. \<^verbatim>\<open>tiles.find(...)!\<close> is
  \<^verbatim>\<open>undefined\<close> when no tile has the blank's id, and reading its \<^verbatim>\<open>currentPosition\<close>
  throws.\<close>

definition handleTileClick :: "int \<Rightarrow> puzzle \<Rightarrow> Tile \<Rightarrow> error + puzzle" where
  "handleTileClick gridSize s clickedTile =
     (if isSolved s then Inr s
      else
        (case find (\<lambda>t. id_tile t = blankTileId gridSize) (tiles s) of
           None \<Rightarrow> Inl TypeError
         | Some blankTile \<Rightarrow>
            let validMoves = getValidMoves (currentPosition blankTile) gridSize in
            if currentPosition clickedTile \<in> set validMoves then
              let nt = newTiles gridSize (tiles s) clickedTile blankTile
              in Inr (checkIfSolved (s\<lparr>tiles := nt\<rparr>) nt)
            else Inr s))"


text \<open>A sequence of clicks, one handler call after the other; an exception ends it.\<close>

fun clicks :: "int \<Rightarrow> puzzle \<Rightarrow> Tile list \<Rightarrow> error + puzzle" where
  "clicks gridSize s [] = Inr s"
| "clicks gridSize s (c # cs) =
     (case handleTileClick gridSize s c of
        Inl e \<Rightarrow> Inl e
      | Inr s' \<Rightarrow> clicks gridSize s' cs)"

subsection \<open>Sessions, well-formed boards and solutions\<close>

text \<open>The states of a session: \<^verbatim>\<open>initializePuzzle\<close> runs (on mount and on every start of
  the puzzle stage) with binary64 random numbers from \<open>[0, 1)\<close>, and then the user clicks tiles
  that the component renders, which are the elements of \<^verbatim>\<open>tiles\<close>.\<close>

inductive reachable :: "int \<Rightarrow> puzzle \<Rightarrow> bool" for gridSize :: int where
  init: "\<forall>i. 0 \<le> rnd i \<and> rnd i \<le> 1 - 1 / 2 ^ 53 \<Longrightarrow> initializePuzzle gridSize rnd s0 = Inr s
           \<Longrightarrow> reachable gridSize s"
| click: "reachable gridSize s \<Longrightarrow> c \<in> set (tiles s) \<Longrightarrow> handleTileClick gridSize s c = Inr s'
           \<Longrightarrow> reachable gridSize s'"

text \<open>A board as the engine builds it: the tiles carry the ids \<open>0, \<dots>, N\<^sup>2 - 1\<close> in this
  order, and no two tiles are in the same cell of the grid.\<close>

definition wellFormed :: "int \<Rightarrow> Tile list \<Rightarrow> bool" where
  "wellFormed N ts \<longleftrightarrow>
     map id_tile ts = [0..N * N - 1] \<and>
     distinct (map currentPosition ts) \<and>
     set (map currentPosition ts) = {0..N * N - 1}"

definition blankAt :: "int \<Rightarrow> Tile list \<Rightarrow> int \<Rightarrow> bool" where
  "blankAt N ts b \<longleftrightarrow> (\<exists>t \<in> set ts. id_tile t = blankTileId N \<and> currentPosition t = b)"

text \<open>A click that \<^verbatim>\<open>handleTileClick\<close> accepts: the session is not locked and the
  clicked tile is in a cell next to the blank's.\<close>

definition accepted :: "int \<Rightarrow> 'a puzzle_scheme \<Rightarrow> Tile \<Rightarrow> bool" where
  "accepted N s c \<longleftrightarrow>
     \<not> isSolved s \<and>
     (case find (\<lambda>t. id_tile t = blankTileId N) (tiles s) of
        None \<Rightarrow> False
      | Some blankTile \<Rightarrow> currentPosition c \<in> set (getValidMoves (currentPosition blankTile) N))"

text \<open>A solution of a state: a list of tile ids, clicked one after the other, such that
  every click is a legal move (the clicked tile is in a cell that \<^verbatim>\<open>getValidMoves\<close>
  returns for the blank's cell, and the handler accepts it), and such that every tile is
  at its home cell in the end.\<close>

fun legalSolution :: "int \<Rightarrow> puzzle \<Rightarrow> int list \<Rightarrow> bool" where
  "legalSolution N s [] = solvedBoard (tiles s)"
| "legalSolution N s (k # ks) =
     (case find (\<lambda>t. id_tile t = k) (tiles s) of
        None \<Rightarrow> False
      | Some clickedTile \<Rightarrow>
         (case find (\<lambda>t. id_tile t = blankTileId N) (tiles s) of
            None \<Rightarrow> False
          | Some blankTile \<Rightarrow>
              \<not> isSolved s \<and>
              currentPosition clickedTile \<in> set (getValidMoves (currentPosition blankTile) N) \<and>
              (case handleTileClick N s clickedTile of
                 Inl e \<Rightarrow> False
               | Inr s' \<Rightarrow> legalSolution N s' ks)))"

definition solvable :: "int \<Rightarrow> Tile list \<Rightarrow> bool" where
  "solvable N ts \<longleftrightarrow> (\<exists>ks. legalSolution N \<lparr>tiles = ts, isSolved = False\<rparr> ks)"

subsection \<open>The shuffle as the specification words it\<close>

text \<open>Section 4.2 of the specification, step 3: find the tile whose currentPosition
  equals the chosen cell and exchange the two currentPosition values.\<close>

definition spec_swap :: "int \<Rightarrow> int \<Rightarrow> Tile list \<Rightarrow> Tile list" where
  "spec_swap b m ts =
     map (\<lambda>t. if currentPosition t = b then t\<lparr>currentPosition := m\<rparr>
               else if currentPosition t = m then t\<lparr>currentPosition := b\<rparr>
               else t) ts"

text \<open>Steps 1 to 4: the cells next to the blank's cell, one of them chosen by the random
  number \<open>r\<close>, the exchange, and the tracker of the blank's cell advanced.\<close>

definition spec_shuffle_step :: "int \<Rightarrow> real \<Rightarrow> Tile list \<times> int \<Rightarrow> Tile list \<times> int" where
  "spec_shuffle_step N r st =
     (let adjacent = getValidMoves (snd st) N;
          chosen = adjacent ! nat \<lfloor>double_mul r (real (length adjacent))\<rfloor>
      in (spec_swap (snd st) chosen (fst st), chosen))"

text \<open>The first \<open>n\<close> steps, from the identity board with the blank tracked at its home
  cell \<open>N\<^sup>2 - 1\<close>.\<close>

fun spec_shuffle :: "int \<Rightarrow> (nat \<Rightarrow> real) \<Rightarrow> nat \<Rightarrow> Tile list \<times> int" where
  "spec_shuffle N rnd 0 =
     (map (\<lambda>i. \<lparr>id_tile = i, currentPosition = i\<rparr>) [0..N * N - 1], N * N - 1)"
| "spec_shuffle N rnd (Suc n) = spec_shuffle_step N (rnd n) (spec_shuffle N rnd n)"

definition spec_initialize :: "int \<Rightarrow> (nat \<Rightarrow> real) \<Rightarrow> puzzle" where
  "spec_initialize N rnd = \<lparr>tiles = fst (spec_shuffle N rnd 100), isSolved = False\<rparr>"

section \<open>Auxiliary facts\<close>

subsection \<open>Cells and their neighbours\<close>


lemma js_rem_nonneg: "0 \<le> a \<Longrightarrow> 0 < b \<Longrightarrow> js_rem a b = a mod b"
  by (simp add: js_rem_def)

lemma getValidMoves_grid:
  assumes "0 < N" "0 \<le> p"
  shows "getValidMoves p N =
     (if 0 < p div N then [p - N] else []) @
     (if p div N < N - 1 then [p + N] else []) @
     (if 0 < p mod N then [p - 1] else []) @
     (if p mod N < N - 1 then [p + 1] else [])"
  using assms by (simp add: getValidMoves_def js_rem_nonneg Let_def)

lemma cell_decomp:
  fixes N :: int
  assumes "0 < N" "0 \<le> c" "c < N"
  shows "(N * r + c) div N = r" "(N * r + c) mod N = c"
  using assms by simp_all

lemma row_bound:
  fixes N :: int
  assumes "0 < N" "0 \<le> p" "p < N * N"
  shows "0 \<le> p div N" "p div N < N"
proof -
  show "0 \<le> p div N" using assms by (simp add: pos_imp_zdiv_nonneg_iff)
  have "p mod N \<ge> 0" using assms(1) by simp
  moreover have "p = N * (p div N) + p mod N" by simp
  ultimately have "N * (p div N) \<le> p" by linarith
  then have "N * (p div N) < N * N" using assms(3) by linarith
  then show "p div N < N" using assms(1) by (simp add: mult_less_cancel_left_pos)
qed


lemma corner_cells:
  fixes N :: int
  assumes N: "2 \<le> N" and p: "0 \<le> p" "p < N * N"
  shows "p \<in> {0, N - 1, N * N - N, N * N - 1} \<longleftrightarrow>
         (p div N = 0 \<or> p div N = N - 1) \<and> (p mod N = 0 \<or> p mod N = N - 1)"
proof -
  have N0: "0 < N" using N by simp
  define r c where "r = p div N" and "c = p mod N"
  have pc: "p = N * r + c" by (simp add: r_def c_def)
  have c: "0 \<le> c" "c < N" using N0 by (simp_all add: c_def)
  have r: "0 \<le> r" "r < N" using row_bound[OF N0 p] by (simp_all add: r_def)
  have inj: "N * r + c = N * r' + c' \<longleftrightarrow> r = r' \<and> c = c'"
    if "0 \<le> c'" "c' < N" for r' c'
  proof
    assume e: "N * r + c = N * r' + c'"
    have "(N * r + c) div N = r" "(N * r + c) mod N = c" using cell_decomp[OF N0 c] by auto
    moreover have "(N * r' + c') div N = r'" "(N * r' + c') mod N = c'"
      using cell_decomp[OF N0 that] by auto
    ultimately show "r = r' \<and> c = c'" using e by simp
  qed simp
  have "p = 0 \<longleftrightarrow> r = 0 \<and> c = 0" using inj[of 0 0] N0 pc by simp
  moreover have "p = N - 1 \<longleftrightarrow> r = 0 \<and> c = N - 1" using inj[of "N - 1" 0] N0 pc by simp
  moreover have "p = N * N - N \<longleftrightarrow> r = N - 1 \<and> c = 0"
    using inj[of 0 "N - 1"] N0 pc by (simp add: algebra_simps)
  moreover have "p = N * N - 1 \<longleftrightarrow> r = N - 1 \<and> c = N - 1"
    using inj[of "N - 1" "N - 1"] N0 pc by (simp add: algebra_simps)
  ultimately show ?thesis unfolding r_def[symmetric] c_def[symmetric] by auto
qed

lemma getValidMoves_length:
  assumes N: "2 \<le> N" and p: "0 \<le> p" "p < N * N"
  shows "length (getValidMoves p N) =
     (if (p div N = 0 \<or> p div N = N - 1) \<and> (p mod N = 0 \<or> p mod N = N - 1) then 2
      else if (p div N = 0 \<or> p div N = N - 1) \<or> (p mod N = 0 \<or> p mod N = N - 1) then 3
      else 4)"
proof -
  have N0: "0 < N" using N by simp
  define r c where "r = p div N" and "c = p mod N"
  have c: "0 \<le> c" "c < N" using N0 by (simp_all add: c_def)
  have r: "0 \<le> r" "r < N" using row_bound[OF N0 p] by (simp_all add: r_def)
  show ?thesis
    unfolding getValidMoves_grid[OF N0 p(1)] r_def[symmetric] c_def[symmetric]
    using c r N by auto
qed

lemma getValidMoves_neighbours:
  assumes N: "0 < N" and p: "0 \<le> p" "p < N * N"
  shows "set (getValidMoves p N) =
     {m. 0 \<le> m \<and> m < N * N \<and> \<bar>m div N - p div N\<bar> + \<bar>m mod N - p mod N\<bar> = 1}"
proof -
  define r c where "r = p div N" and "c = p mod N"
  have pc: "p = N * r + c" by (simp add: r_def c_def)
  have c: "0 \<le> c" "c < N" using N by (simp_all add: c_def)
  have r: "0 \<le> r" "r < N" using row_bound[OF N p] by (simp_all add: r_def)
  have top: "N * r + c < N * N" using p pc by simp
  show ?thesis
  proof (intro set_eqI iffI)
    fix m assume m: "m \<in> set (getValidMoves p N)"
    from m consider "0 < r" "m = N * (r - 1) + c" | "r < N - 1" "m = N * (r + 1) + c"
      | "0 < c" "m = N * r + (c - 1)" | "c < N - 1" "m = N * r + (c + 1)"
      unfolding getValidMoves_grid[OF N p(1)] r_def[symmetric] c_def[symmetric]
      by (auto simp: pc algebra_simps split: if_splits)
    then have "0 \<le> m \<and> m < N * N \<and> \<bar>m div N - r\<bar> + \<bar>m mod N - c\<bar> = 1"
    proof cases
      case 1
      have dm: "m div N = r - 1" "m mod N = c" unfolding 1 using cell_decomp[OF N c] by auto
      have "0 \<le> m" using 1 c N by simp
      moreover have "m < N * N" using 1 top N by (simp add: algebra_simps)
      ultimately show ?thesis using dm by simp
    next
      case 2
      have dm: "m div N = r + 1" "m mod N = c" unfolding 2 using cell_decomp[OF N c] by auto
      have "N * (r + 1) \<le> N * (N - 1)" using 2 N by (intro mult_left_mono) auto
      then have "m < N * N" using 2 c by (simp add: algebra_simps)
      moreover have "0 \<le> m" using 2 c N r by simp
      ultimately show ?thesis using dm by simp
    next
      case 3
      have c': "0 \<le> c - 1" "c - 1 < N" using 3 c by auto
      have dm: "m div N = r" "m mod N = c - 1" unfolding 3 using cell_decomp[OF N c'] by auto
      have "0 \<le> m" using 3 c N r by simp
      moreover have "m < N * N" using 3 top by simp
      ultimately show ?thesis using dm by simp
    next
      case 4
      have c': "0 \<le> c + 1" "c + 1 < N" using 4 c by auto
      have dm: "m div N = r" "m mod N = c + 1" unfolding 4 using cell_decomp[OF N c'] by auto
      have "N * r \<le> N * (N - 1)" using r N by (intro mult_left_mono) auto
      then have "m < N * N" using 4 by (simp add: algebra_simps)
      moreover have "0 \<le> m" using 4 c N r by simp
      ultimately show ?thesis using dm by simp
    qed
    then show "m \<in> {m. 0 \<le> m \<and> m < N * N \<and> \<bar>m div N - p div N\<bar> + \<bar>m mod N - p mod N\<bar> = 1}"
      by (simp add: r_def c_def)
  next
    fix m assume "m \<in> {m. 0 \<le> m \<and> m < N * N \<and> \<bar>m div N - p div N\<bar> + \<bar>m mod N - p mod N\<bar> = 1}"
    then have m: "0 \<le> m" "m < N * N" and d: "\<bar>m div N - r\<bar> + \<bar>m mod N - c\<bar> = 1"
      by (simp_all add: r_def c_def)
    define r' c' where "r' = m div N" and "c' = m mod N"
    have mc: "m = N * r' + c'" by (simp add: r'_def c'_def)
    have c': "0 \<le> c'" "c' < N" using N by (simp_all add: c'_def)
    have r': "0 \<le> r'" "r' < N" using row_bound[OF N m] by (simp_all add: r'_def)
    from d consider "r' = r - 1" "c' = c" | "r' = r + 1" "c' = c" | "r' = r" "c' = c - 1"
      | "r' = r" "c' = c + 1"
      unfolding r'_def[symmetric] c'_def[symmetric] by linarith
    then show "m \<in> set (getValidMoves p N)"
    proof cases
      case 1
      then have "m = N * (r - 1) + c" using mc by simp
      then have "m = p - N" using pc by (simp add: algebra_simps)
      moreover have "0 < r" using 1 r' by simp
      ultimately have "m = p - N" "0 < r" by simp_all
      then show ?thesis unfolding getValidMoves_grid[OF N p(1)] r_def[symmetric] by simp
    next
      case 2
      then have "m = N * (r + 1) + c" using mc by simp
      then have "m = p + N" using pc by (simp add: algebra_simps)
      moreover have "r < N - 1" using 2 r' by simp
      ultimately have "m = p + N" "r < N - 1" by simp_all
      then show ?thesis unfolding getValidMoves_grid[OF N p(1)] r_def[symmetric] by simp
    next
      case 3
      then have "m = N * r + (c - 1)" using mc by simp
      then have "m = p - 1" using pc by simp
      moreover have "0 < c" using 3 c' by simp
      ultimately have "m = p - 1" "0 < c" by simp_all
      then show ?thesis unfolding getValidMoves_grid[OF N p(1)] c_def[symmetric] by simp
    next
      case 4
      then have "m = N * r + (c + 1)" using mc by simp
      then have "m = p + 1" using pc by simp
      moreover have "c < N - 1" using 4 c' by simp
      ultimately have "m = p + 1" "c < N - 1" by simp_all
      then show ?thesis unfolding getValidMoves_grid[OF N p(1)] c_def[symmetric] by simp
    qed
  qed
qed

lemma getValidMoves_sym:
  assumes N: "0 < N" and p: "0 \<le> p" "p < N * N" and m: "m \<in> set (getValidMoves p N)"
  shows "0 \<le> m" "m < N * N" "m \<noteq> p" "p \<in> set (getValidMoves m N)"
proof -
  have M: "0 \<le> m \<and> m < N * N \<and> \<bar>m div N - p div N\<bar> + \<bar>m mod N - p mod N\<bar> = 1"
    using m unfolding getValidMoves_neighbours[OF N p] by simp
  show m0: "0 \<le> m" and m1: "m < N * N" using M by auto
  show "m \<noteq> p" using M by auto
  have "\<bar>p div N - m div N\<bar> + \<bar>p mod N - m mod N\<bar> = 1" using M by linarith
  then show "p \<in> set (getValidMoves m N)"
    using p unfolding getValidMoves_neighbours[OF N m0 m1] by simp
qed

lemma getValidMoves_subset: "set (getValidMoves p N) \<subseteq> {p - N, p + N, p - 1, p + 1}"
  unfolding getValidMoves_def Let_def by auto

subsection \<open>The rounded product\<close>

lemma roundHalfEven_upper: "roundHalfEven y \<le> y + 1 / 2"
  unfolding roundHalfEven_def Let_def by (auto; linarith)

lemma roundHalfEven_int_le: "of_int m \<le> y \<Longrightarrow> of_int m \<le> roundHalfEven y"
proof -
  assume "of_int m \<le> y"
  then have "m \<le> \<lfloor>y\<rfloor>" by (simp add: le_floor_iff)
  then have "(of_int m :: real) \<le> of_int \<lfloor>y\<rfloor>" by simp
  then show ?thesis unfolding roundHalfEven_def Let_def by auto
qed

lemma roundScaled_upper: "roundScaled k x \<le> x + 1 / 2"
proof (induction k arbitrary: x)
  case 0
  then show ?case by (simp add: roundHalfEven_upper)
next
  case (Suc k)
  have "roundScaled k (2 * x) \<le> 2 * x + 1 / 2" using Suc[of "2 * x"] .
  then show ?case using roundHalfEven_upper[of x] by auto
qed

lemma roundScaled_int_le: "of_int m \<le> x \<Longrightarrow> of_int m \<le> roundScaled k x"
proof (induction k arbitrary: x m)
  case 0
  then show ?case by (simp add: roundHalfEven_int_le)
next
  case (Suc k)
  have "of_int (2 * m) \<le> 2 * x" using Suc.prems by simp
  then have "of_int (2 * m) \<le> roundScaled k (2 * x)" by (rule Suc.IH)
  then show ?case using Suc.prems roundHalfEven_int_le[of m x] by auto
qed

lemma roundScaled_shift:
  "x * 2 ^ j < 9007199254740992 \<Longrightarrow> j \<le> k \<Longrightarrow>
     roundScaled k x = roundScaled (k - j) (x * 2 ^ j) / 2 ^ j"
proof (induction j arbitrary: k x)
  case 0
  then show ?case by simp
next
  case (Suc j)
  obtain k' where k: "k = Suc k'" using Suc.prems(2) by (cases k) auto
  have e: "x * 2 ^ Suc j = x * 2 ^ j * 2" by simp
  have x: "x < 4503599627370496"
  proof (rule ccontr)
    assume "\<not> x < 4503599627370496"
    then have a: "4503599627370496 \<le> x" by simp
    have "1 \<le> (2::real) ^ j" by simp
    then have "x * 1 \<le> x * 2 ^ j" using a by (intro mult_left_mono) auto
    then have "4503599627370496 * 2 \<le> x * 2 ^ j * 2" using a by linarith
    then show False using Suc.prems(1) unfolding e by linarith
  qed
  have "roundScaled k' (2 * x) = roundScaled (k' - j) (2 * x * 2 ^ j) / 2 ^ j"
    using Suc.IH[of "2 * x" k'] Suc.prems k by (simp add: mult.assoc mult.left_commute)
  then show ?case using x k by (simp add: mult.assoc mult.left_commute)
qed

lemma roundScaled_error:
  assumes "x * 2 ^ j < 9007199254740992" "j \<le> k"
  shows "roundScaled k x \<le> x + 1 / 2 ^ Suc j"
proof -
  have "roundScaled (k - j) (x * 2 ^ j) \<le> x * 2 ^ j + 1 / 2" by (rule roundScaled_upper)
  then have "roundScaled (k - j) (x * 2 ^ j) / 2 ^ j \<le> (x * 2 ^ j + 1 / 2) / 2 ^ j"
    by (simp add: divide_right_mono)
  then show ?thesis unfolding roundScaled_shift[OF assms] by (simp add: field_simps)
qed

lemma double_mul_nonneg:
  assumes "0 \<le> r"
  shows "double_mul r (real n) = roundScaled 1074 (r * real n)"
proof -
  have "0 \<le> r * real n" using assms by simp
  then have "\<not> r * real n < 0" by linarith
  then show ?thesis unfolding double_mul_def double_round_def by (simp only: if_False)
qed

lemma double_pick:
  assumes r: "0 \<le> r" "r \<le> 1 - 1 / 2 ^ 53" and n: "n = 1 \<or> n = 2 \<or> n = 3 \<or> n = 4"
  shows "0 \<le> \<lfloor>double_mul r (real n)\<rfloor>" "\<lfloor>double_mul r (real n)\<rfloor> < int n"
proof -
  have "of_int 0 \<le> r * real n" using r(1) by simp
  then have "of_int 0 \<le> roundScaled 1074 (r * real n)" by (rule roundScaled_int_le)
  then show "0 \<le> \<lfloor>double_mul r (real n)\<rfloor>"
    unfolding double_mul_nonneg[OF r(1)] by simp
  have "roundScaled 1074 (r * real n) < real n"
  proof -
    consider "n = 1" | "n = 2" | "n = 3" | "n = 4" using n by blast
    then show ?thesis
    proof cases
      case 1
      have "r * real n * 2 ^ 53 < 9007199254740992" using r 1 by simp
      from roundScaled_error[OF this, of 1074] show ?thesis using r 1 by simp
    next
      case 2
      have "r * real n * 2 ^ 52 < 9007199254740992" using r 2 by simp
      from roundScaled_error[OF this, of 1074] show ?thesis using r 2 by simp
    next
      case 3
      have "r * real n * 2 ^ 51 < 9007199254740992" using r 3 by simp
      from roundScaled_error[OF this, of 1074] show ?thesis using r 3 by simp
    next
      case 4
      have "r * real n * 2 ^ 51 < 9007199254740992" using r 4 by simp
      from roundScaled_error[OF this, of 1074] show ?thesis using r 4 by simp
    qed
  qed
  then show "\<lfloor>double_mul r (real n)\<rfloor> < int n"
    unfolding double_mul_nonneg[OF r(1)] by (simp add: floor_less_iff)
qed

lemma double_pick_interval:
  assumes r: "0 \<le> r" "r \<le> 1 - 1 / 2 ^ 53" and n: "n \<le> 4"
  shows "real k \<le> r * real n \<and> r * real n < real k + 1 - 1 / 2 ^ 52
           \<longrightarrow> \<lfloor>double_mul r (real n)\<rfloor> = int k"
    and "\<lfloor>double_mul r (real n)\<rfloor> = int k
           \<longrightarrow> real k - 1 / 2 ^ 52 \<le> r * real n \<and> r * real n < real k + 1"
proof -
  let ?x = "r * real n"
  have "r * real n \<le> r * 4" using r(1) n by (intro mult_left_mono) auto
  then have "?x * 2 ^ 51 < 9007199254740992" using r by simp
  from roundScaled_error[OF this, of 1074]
  have up: "roundScaled 1074 ?x \<le> ?x + 1 / 2 ^ 52" by simp
  show "real k \<le> ?x \<and> ?x < real k + 1 - 1 / 2 ^ 52 \<longrightarrow> \<lfloor>double_mul r (real n)\<rfloor> = int k"
  proof
    assume a: "real k \<le> ?x \<and> ?x < real k + 1 - 1 / 2 ^ 52"
    then have "of_int (int k) \<le> ?x" by simp
    then have "of_int (int k) \<le> roundScaled 1074 ?x" by (rule roundScaled_int_le)
    moreover have "roundScaled 1074 ?x < of_int (int k) + 1" using up a by simp
    ultimately show "\<lfloor>double_mul r (real n)\<rfloor> = int k"
      unfolding double_mul_nonneg[OF r(1)] by (simp add: floor_eq_iff)
  qed
  show "\<lfloor>double_mul r (real n)\<rfloor> = int k \<longrightarrow> real k - 1 / 2 ^ 52 \<le> ?x \<and> ?x < real k + 1"
  proof
    assume "\<lfloor>double_mul r (real n)\<rfloor> = int k"
    then have fl: "real k \<le> roundScaled 1074 ?x" "roundScaled 1074 ?x < real k + 1"
      unfolding double_mul_nonneg[OF r(1)] by (simp_all add: floor_eq_iff)
    have "?x < real k + 1"
    proof (rule ccontr)
      assume "\<not> ?x < real k + 1"
      then have "of_int (int k + 1) \<le> ?x" by simp
      then have "of_int (int k + 1) \<le> roundScaled 1074 ?x" by (rule roundScaled_int_le)
      then show False using fl(2) by simp
    qed
    then show "real k - 1 / 2 ^ 52 \<le> ?x \<and> ?x < real k + 1" using fl(1) up by simp
  qed
qed

lemma getValidMoves_length_le: "length (getValidMoves p N) \<le> 4"
  unfolding getValidMoves_def Let_def by simp

subsection \<open>One step of the shuffle\<close>

lemma findIndex_Some:
  "findIndex P xs = Some i \<Longrightarrow> i < length xs \<and> P (xs ! i)"
proof (induction xs arbitrary: i)
  case Nil
  then show ?case by simp
next
  case (Cons x xs)
  then show ?case by (cases "P x") (auto simp: nth_Cons')
qed

lemma findIndex_exists:
  "\<exists>x \<in> set xs. P x \<Longrightarrow> \<exists>i. findIndex P xs = Some i"
  by (induction xs) auto

lemma distinct_map_nth_eq:
  assumes "distinct (map f xs)" "i < length xs" "j < length xs" "f (xs ! i) = f (xs ! j)"
  shows "i = j"
proof -
  have "map f xs ! i = map f xs ! j" using assms by simp
  moreover have "i < length (map f xs)" "j < length (map f xs)" using assms by simp_all
  ultimately show ?thesis using assms(1) nth_eq_iff_index_eq[of "map f xs" i j] by blast
qed

lemma distinct_map_eq:
  assumes "distinct (map f xs)" "x \<in> set xs" "y \<in> set xs" "f x = f y"
  shows "x = y"
  using assms by (meson distinct_map inj_onD)

lemma update_swap:
  assumes d: "distinct (map currentPosition ts)"
    and i: "findIndex (\<lambda>t. currentPosition t = b) ts = Some i"
    and j: "findIndex (\<lambda>t. currentPosition t = m) ts = Some j"
    and bm: "b \<noteq> m"
  shows "(ts[i := (ts ! i)\<lparr>currentPosition := m\<rparr>])
            [j := ((ts[i := (ts ! i)\<lparr>currentPosition := m\<rparr>]) ! j)\<lparr>currentPosition := b\<rparr>]
         = spec_swap b m ts"
proof (rule nth_equalityI)
  show "length (ts[i := (ts ! i)\<lparr>currentPosition := m\<rparr>,
      j := (ts[i := (ts ! i)\<lparr>currentPosition := m\<rparr>] ! j)\<lparr>currentPosition := b\<rparr>]) = length (spec_swap b m ts)"
    by (simp add: spec_swap_def)
next
  fix k
  assume "k < length (ts[i := (ts ! i)\<lparr>currentPosition := m\<rparr>,
      j := (ts[i := (ts ! i)\<lparr>currentPosition := m\<rparr>] ! j)\<lparr>currentPosition := b\<rparr>])"
  then have k: "k < length ts" by simp
  have I: "i < length ts" "currentPosition (ts ! i) = b" using findIndex_Some[OF i] by auto
  have J: "j < length ts" "currentPosition (ts ! j) = m" using findIndex_Some[OF j] by auto
  have ij: "i \<noteq> j" using I J bm by auto
  have ki: "currentPosition (ts ! k) = b \<longleftrightarrow> k = i"
    using distinct_map_nth_eq[OF d k I(1)] I(2) by auto
  have kj: "currentPosition (ts ! k) = m \<longleftrightarrow> k = j"
    using distinct_map_nth_eq[OF d k J(1)] J(2) by auto
  show "ts[i := (ts ! i)\<lparr>currentPosition := m\<rparr>,
      j := (ts[i := (ts ! i)\<lparr>currentPosition := m\<rparr>] ! j)\<lparr>currentPosition := b\<rparr>] ! k = spec_swap b m ts ! k"
    using k I J ij ki kj bm by (simp add: spec_swap_def nth_list_update)
qed

lemma spec_swap_ids: "map id_tile (spec_swap b m ts) = map id_tile ts"
  by (simp add: spec_swap_def)

lemma spec_swap_positions:
  "map currentPosition (spec_swap b m ts) =
     map (\<lambda>x. if x = b then m else if x = m then b else x) (map currentPosition ts)"
  by (simp add: spec_swap_def)

lemma spec_swap_wellFormed:
  assumes wf: "wellFormed N ts" and b: "b \<in> {0..N * N - 1}" and m: "m \<in> {0..N * N - 1}"
  shows "wellFormed N (spec_swap b m ts)"
proof -
  let ?f = "\<lambda>x. if x = b then m else if x = m then b else x"
  have inj: "inj ?f" by (auto simp: inj_def)
  have img: "?f ` {0..N * N - 1} = {0..N * N - 1}"
  proof
    show "?f ` {0..N * N - 1} \<subseteq> {0..N * N - 1}" using b m by auto
    show "{0..N * N - 1} \<subseteq> ?f ` {0..N * N - 1}"
    proof
      fix x assume x: "x \<in> {0..N * N - 1}"
      have "x = ?f (?f x)" by simp
      moreover have "?f x \<in> {0..N * N - 1}" using x b m by auto
      ultimately show "x \<in> ?f ` {0..N * N - 1}" by (rule image_eqI)
    qed
  qed
  have "distinct (map ?f (map currentPosition ts))"
    using wf inj unfolding wellFormed_def
    by (metis (no_types, lifting) distinct_map inj_on_subset subset_UNIV)
  moreover have "set (map ?f (map currentPosition ts)) = {0..N * N - 1}"
    using wf img unfolding wellFormed_def by (metis (no_types, lifting) set_map)
  ultimately show ?thesis
    using wf unfolding wellFormed_def spec_swap_positions spec_swap_ids by simp
qed

lemma spec_swap_blankAt:
  assumes "blankAt N ts b"
  shows "blankAt N (spec_swap b m ts) m"
proof -
  from assms obtain t where t: "t \<in> set ts" "id_tile t = blankTileId N" "currentPosition t = b"
    unfolding blankAt_def by auto
  then have "t\<lparr>currentPosition := m\<rparr> \<in> set (spec_swap b m ts)"
    unfolding spec_swap_def by force
  moreover have "id_tile (t\<lparr>currentPosition := m\<rparr>) = blankTileId N"
    "currentPosition (t\<lparr>currentPosition := m\<rparr>) = m" using t by simp_all
  ultimately show ?thesis unfolding blankAt_def by blast
qed

lemma getValidMoves_nonempty:
  assumes "2 \<le> N" "0 \<le> p" "p < N * N"
  shows "getValidMoves p N \<noteq> []"
proof -
  have N: "0 < N" using assms by simp
  have "0 < p div N \<or> p div N < N - 1" using assms by linarith
  then show ?thesis unfolding getValidMoves_grid[OF N assms(2)] by auto
qed

lemma shuffleStep_ok:
  assumes N: "2 \<le> N" and wf: "wellFormed N ts" and b: "b \<in> {0..N * N - 1}"
    and r: "0 \<le> r" "r \<le> 1 - 1 / 2 ^ 53"
  shows "\<exists>m \<in> set (getValidMoves b N). shuffleStep N r (ts, b) = Inr (spec_swap b m ts, m)"
proof -
  let ?vm = "getValidMoves b N"
  let ?k = "\<lfloor>double_mul r (real (length ?vm))\<rfloor>"
  have b': "0 \<le> b" "b < N * N" using b by auto
  have N0: "0 < N" using N by simp
  have len: "0 < length ?vm" using getValidMoves_nonempty[OF N b'] by simp
  have "length ?vm = 1 \<or> length ?vm = 2 \<or> length ?vm = 3 \<or> length ?vm = 4"
    using len getValidMoves_length_le[of b N] by linarith
  then have k: "0 \<le> ?k" "?k < int (length ?vm)" using double_pick[OF r] by auto
  define m where "m = ?vm ! nat ?k"
  have m: "m \<in> set ?vm" unfolding m_def using k by (simp add: nat_less_iff)
  have mprops: "0 \<le> m" "m < N * N" "m \<noteq> b"
    using getValidMoves_sym[OF N0 b' m] by auto
  have "\<exists>x \<in> set ts. currentPosition x = b"
    using wf b unfolding wellFormed_def by (metis (no_types, lifting) image_iff set_map)
  then obtain i where i: "findIndex (\<lambda>t. currentPosition t = b) ts = Some i"
    using findIndex_exists[of ts "\<lambda>t. currentPosition t = b"] by auto
  have "m \<in> {0..N * N - 1}" using mprops by auto
  then have "\<exists>x \<in> set ts. currentPosition x = m"
    using wf unfolding wellFormed_def by (metis (no_types, lifting) image_iff set_map)
  then obtain j where j: "findIndex (\<lambda>t. currentPosition t = m) ts = Some j"
    using findIndex_exists[of ts "\<lambda>t. currentPosition t = m"] by auto
  have d: "distinct (map currentPosition ts)" using wf unfolding wellFormed_def by simp
  have "shuffleStep N r (ts, b) = Inr (spec_swap b m ts, m)"
    unfolding shuffleStep_def Let_def
    using k i j update_swap[OF d i j] mprops(3) by (simp add: m_def[symmetric])
  then show ?thesis using m by blast
qed

subsection \<open>Undoing a step by a click\<close>

lemma find_distinct_map:
  assumes "distinct (map f xs)" "x \<in> set xs"
  shows "find (\<lambda>t. f t = f x) xs = Some x"
  using assms
proof (induction xs)
  case Nil
  then show ?case by simp
next
  case (Cons a xs)
  then show ?case by (cases "a = x") (auto simp: image_iff)
qed

lemma wellFormed_ids: "wellFormed N ts \<Longrightarrow> distinct (map id_tile ts)"
  by (simp add: wellFormed_def)

lemma wellFormed_cell:
  assumes "wellFormed N ts" "p \<in> {0..N * N - 1}"
  shows "\<exists>t \<in> set ts. currentPosition t = p"
  using assms unfolding wellFormed_def by (metis (no_types, lifting) image_iff set_map)

lemma Tile_same: "currentPosition t = p \<Longrightarrow> t\<lparr>currentPosition := p\<rparr> = t"
  by (cases t) simp

lemma reverse_newTiles:
  assumes wf: "wellFormed N ts"
    and bt: "bt \<in> set ts" "id_tile bt = blankTileId N" "currentPosition bt = b"
    and u: "u \<in> set ts" "currentPosition u = m"
    and bm: "b \<noteq> m"
  shows "newTiles N (spec_swap b m ts) (u\<lparr>currentPosition := b\<rparr>) (bt\<lparr>currentPosition := m\<rparr>) = ts"
proof -
  have dI: "distinct (map id_tile ts)" and dP: "distinct (map currentPosition ts)"
    using wf by (simp_all add: wellFormed_def)
  have kb: "id_tile u \<noteq> blankTileId N"
    using distinct_map_eq[OF dI u(1) bt(1)] bt u bm by auto
  define h where "h = (\<lambda>t::Tile. if currentPosition t = b then t\<lparr>currentPosition := m\<rparr>
               else if currentPosition t = m then t\<lparr>currentPosition := b\<rparr> else t)"
  define g where "g = (\<lambda>t::Tile. if id_tile t = id_tile u then t\<lparr>currentPosition := m\<rparr>
        else if id_tile t = blankTileId N then t\<lparr>currentPosition := b\<rparr> else t)"
  have key: "g (h t) = t" if t: "t \<in> set ts" for t
  proof -
    consider "currentPosition t = b" | "currentPosition t = m"
      | "currentPosition t \<noteq> b" "currentPosition t \<noteq> m"
      by blast
    then show ?thesis
    proof cases
      case 1
      then have "t = bt" using distinct_map_eq[OF dP t bt(1)] bt(3) by simp
      then show ?thesis using 1 kb bt by (simp add: Tile_same g_def h_def)
    next
      case 2
      then have "t = u" using distinct_map_eq[OF dP t u(1)] u(2) by simp
      then show ?thesis using 2 bm u by (simp add: Tile_same g_def h_def)
    next
      case 3
      have "id_tile t \<noteq> id_tile u" using distinct_map_eq[OF dI t u(1)] 3 u by auto
      moreover have "id_tile t \<noteq> blankTileId N" using distinct_map_eq[OF dI t bt(1)] 3 bt by auto
      ultimately show ?thesis using 3 by (simp add: g_def h_def)
    qed
  qed
  have "newTiles N (spec_swap b m ts) (u\<lparr>currentPosition := b\<rparr>) (bt\<lparr>currentPosition := m\<rparr>)
      = map g (map h ts)"
    by (simp add: newTiles_def spec_swap_def g_def h_def)
  also have "\<dots> = map (\<lambda>t. g (h t)) ts" by (simp add: comp_def)
  also have "\<dots> = ts" using key by (simp add: map_idI)
  finally show ?thesis .
qed

lemma reverse_click:
  assumes N: "0 < N" and wf: "wellFormed N ts" and bl: "blankAt N ts b"
    and b: "b \<in> {0..N * N - 1}" and m: "m \<in> set (getValidMoves b N)"
    and sol: "solvable N ts"
  shows "solvable N (spec_swap b m ts)"
proof -
  let ?ts' = "spec_swap b m ts"
  have b': "0 \<le> b" "b < N * N" using b by auto
  have mp: "0 \<le> m" "m < N * N" "m \<noteq> b" "b \<in> set (getValidMoves m N)"
    using getValidMoves_sym[OF N b' m] by auto
  then have mr: "m \<in> {0..N * N - 1}" by auto
  from bl obtain bt where bt: "bt \<in> set ts" "id_tile bt = blankTileId N" "currentPosition bt = b"
    unfolding blankAt_def by auto
  from wellFormed_cell[OF wf mr] obtain u where u: "u \<in> set ts" "currentPosition u = m" by auto
  let ?u' = "u\<lparr>currentPosition := b\<rparr>" and ?bt' = "bt\<lparr>currentPosition := m\<rparr>"
  have wf': "wellFormed N ?ts'" using spec_swap_wellFormed[OF wf b mr] .
  have dI': "distinct (map id_tile ?ts')" using wellFormed_ids[OF wf'] .
  have bm: "b \<noteq> m" using mp by simp
  have u'in: "?u' \<in> set ?ts'" using u bm unfolding spec_swap_def by force
  have bt'in: "?bt' \<in> set ?ts'" using bt unfolding spec_swap_def by force
  have fu: "find (\<lambda>t. id_tile t = id_tile u) ?ts' = Some ?u'"
    using find_distinct_map[OF dI' u'in] by simp
  have fb: "find (\<lambda>t. id_tile t = blankTileId N) ?ts' = Some ?bt'"
    using find_distinct_map[OF dI' bt'in] bt by simp
  have nt: "newTiles N ?ts' ?u' ?bt' = ts" using reverse_newTiles[OF wf bt u bm] .
  have click: "handleTileClick N \<lparr>tiles = ?ts', isSolved = False\<rparr> ?u'
      = Inr (checkIfSolved \<lparr>tiles = ts, isSolved = False\<rparr> ts)"
    unfolding handleTileClick_def using fb mp(4) nt by (simp add: Let_def)
  from sol obtain ks where ks: "legalSolution N \<lparr>tiles = ts, isSolved = False\<rparr> ks"
    unfolding solvable_def by auto
  show ?thesis
  proof (cases "solvedBoard ts")
    case True
    then have "legalSolution N \<lparr>tiles = ?ts', isSolved = False\<rparr> [id_tile u]"
      using fu fb mp(4) click by (simp add: checkIfSolved_def)
    then show ?thesis unfolding solvable_def by blast
  next
    case False
    then have "legalSolution N \<lparr>tiles = ?ts', isSolved = False\<rparr> (id_tile u # ks)"
      using fu fb mp(4) click ks by (simp add: checkIfSolved_def)
    then show ?thesis unfolding solvable_def by blast
  qed
qed

lemma initialTiles_wellFormed: "wellFormed N (initialTiles N)"
  by (simp add: wellFormed_def initialTiles_def totalTiles_def comp_def)

lemma initialTiles_solved: "solvedBoard (initialTiles N)"
  by (simp add: solvedBoard_def initialTiles_def list_all_iff)

lemma initialTiles_blankAt: "0 < N \<Longrightarrow> blankAt N (initialTiles N) (blankTileId N)"
  unfolding blankAt_def initialTiles_def blankTileId_def totalTiles_def
  by (auto simp: image_iff)

lemma shuffleLoop_inv:
  assumes "2 \<le> N" "\<forall>i. 0 \<le> rnd i \<and> rnd i \<le> 1 - 1 / 2 ^ 53"
    "wellFormed N (fst st)" "blankAt N (fst st) (snd st)" "snd st \<in> {0..N * N - 1}"
  shows "\<exists>tsF. shuffleLoop N rnd i st = Inr tsF \<and> wellFormed N tsF \<and>
           (solvable N (fst st) \<longrightarrow> solvable N tsF)"
  using assms
proof (induction N rnd i st rule: shuffleLoop.induct)
  case (1 N rnd i st)
  show ?case
  proof (cases "i < 100")
    case False
    then show ?thesis using "1.prems" by (simp add: shuffleLoop.simps)
  next
    case True
    obtain ts b where st: "st = (ts, b)" by (cases st)
    have r: "0 \<le> rnd i" "rnd i \<le> 1 - 1 / 2 ^ 53" using "1.prems"(2) by auto
    have wf: "wellFormed N ts" and bl: "blankAt N ts b" and b: "b \<in> {0..N * N - 1}"
      using "1.prems" st by auto
    from shuffleStep_ok[OF "1.prems"(1) wf b r]
    obtain m where m: "m \<in> set (getValidMoves b N)"
      and step: "shuffleStep N (rnd i) (ts, b) = Inr (spec_swap b m ts, m)" by blast
    have N0: "0 < N" using "1.prems"(1) by simp
    have b': "0 \<le> b" "b < N * N" using b by auto
    have mr: "m \<in> {0..N * N - 1}" using getValidMoves_sym[OF N0 b' m] by auto
    have wf': "wellFormed N (fst (spec_swap b m ts, m))"
      using spec_swap_wellFormed[OF wf b mr] by simp
    have bl': "blankAt N (fst (spec_swap b m ts, m)) (snd (spec_swap b m ts, m))"
      using spec_swap_blankAt[OF bl] by simp
    from "1.IH"[OF True step[unfolded st[symmetric]] "1.prems"(1,2) wf' bl'] mr
    obtain tsF where F: "shuffleLoop N rnd (i + 1) (spec_swap b m ts, m) = Inr tsF"
      "wellFormed N tsF" "solvable N (spec_swap b m ts) \<longrightarrow> solvable N tsF" by auto
    have "shuffleLoop N rnd i st = Inr tsF"
      using True step F(1) st by (subst shuffleLoop.simps) simp
    moreover have "solvable N (fst st) \<longrightarrow> solvable N tsF"
      using reverse_click[OF N0 wf bl b m] F(3) st by auto
    ultimately show ?thesis using F(2) by blast
  qed
qed

lemma initializePuzzle_ok:
  assumes "2 \<le> N" "\<forall>i. 0 \<le> rnd i \<and> rnd i \<le> 1 - 1 / 2 ^ 53"
  shows "\<exists>ts. initializePuzzle N rnd s0 = Inr (s0\<lparr>tiles := ts, isSolved := False\<rparr>) \<and>
           wellFormed N ts \<and> solvable N ts"
proof -
  have N0: "0 < N" using assms by simp
  have rng: "blankTileId N \<in> {0..N * N - 1}"
    using assms(1) by (simp add: blankTileId_def totalTiles_def)
  have sol0: "solvable N (initialTiles N)"
    unfolding solvable_def using initialTiles_solved[of N]
    by (intro exI[of _ "[]"]) simp
  from shuffleLoop_inv[of N rnd "(initialTiles N, blankTileId N)" 0] assms
    initialTiles_wellFormed[of N] initialTiles_blankAt[OF N0] rng sol0
  obtain tsF where "shuffleLoop N rnd 0 (initialTiles N, blankTileId N) = Inr tsF"
    "wellFormed N tsF" "solvable N tsF" by auto
  then show ?thesis unfolding initializePuzzle_def shufflePuzzle_def
    by (intro exI[of _ tsF]) simp
qed

subsection \<open>Clicks and the states of a session\<close>

lemma puzzle_upd:
  fixes s0 :: puzzle
  shows "s0\<lparr>tiles := ts, isSolved := b\<rparr> = \<lparr>tiles = ts, isSolved = b\<rparr>"
  by (cases s0) simp

lemma find_Some_in: "find P xs = Some x \<Longrightarrow> x \<in> set xs \<and> P x"
  by (induction xs) (auto split: if_splits)

lemma self_not_adjacent: "0 < N \<Longrightarrow> p \<notin> set (getValidMoves p N)"
  using getValidMoves_subset[of p N] by auto

lemma wellFormed_blank:
  assumes N: "0 < N" and wf: "wellFormed N ts"
  shows "\<exists>bt. find (\<lambda>t. id_tile t = blankTileId N) ts = Some bt \<and> bt \<in> set ts \<and>
           id_tile bt = blankTileId N"
proof -
  have "1 \<le> N * N" using N by (simp add: mult_pos_pos int_one_le_iff_zero_less)
  then have "blankTileId N \<in> set [0..N * N - 1]" by (simp add: blankTileId_def totalTiles_def)
  then have "blankTileId N \<in> set (map id_tile ts)" using wf by (simp add: wellFormed_def)
  then obtain bt where bt: "bt \<in> set ts" "id_tile bt = blankTileId N" by auto
  then show ?thesis using find_distinct_map[OF wellFormed_ids[OF wf] bt(1)] by auto
qed

lemma newTiles_exact:
  assumes dI: "distinct (map id_tile ts)" and c: "c \<in> set ts"
    and bt: "bt \<in> set ts" "id_tile bt = blankTileId N" and ne: "c \<noteq> bt"
  shows "newTiles N ts c bt =
     map (\<lambda>t. if t = c then c\<lparr>currentPosition := currentPosition bt\<rparr>
               else if t = bt then bt\<lparr>currentPosition := currentPosition c\<rparr>
               else t) ts"
  unfolding newTiles_def
proof (rule map_cong[OF refl])
  fix t assume t: "t \<in> set ts"
  have 1: "id_tile t = id_tile c \<longleftrightarrow> t = c" using distinct_map_eq[OF dI t c] by auto
  have 2: "id_tile t = blankTileId N \<longleftrightarrow> t = bt" using distinct_map_eq[OF dI t bt(1)] bt(2) by auto
  show "(if id_tile t = id_tile c then t\<lparr>currentPosition := currentPosition bt\<rparr>
         else if id_tile t = blankTileId N then t\<lparr>currentPosition := currentPosition c\<rparr> else t) =
        (if t = c then c\<lparr>currentPosition := currentPosition bt\<rparr>
         else if t = bt then bt\<lparr>currentPosition := currentPosition c\<rparr> else t)"
    unfolding 1 2 by simp
qed

lemma newTiles_spec_swap:
  assumes wf: "wellFormed N ts" and c: "c \<in> set ts"
    and bt: "bt \<in> set ts" "id_tile bt = blankTileId N"
    and ne: "currentPosition c \<noteq> currentPosition bt"
  shows "newTiles N ts c bt = spec_swap (currentPosition bt) (currentPosition c) ts"
proof -
  have dI: "distinct (map id_tile ts)" and dP: "distinct (map currentPosition ts)"
    using wf by (simp_all add: wellFormed_def)
  have cbt: "c \<noteq> bt" using ne by auto
  show ?thesis unfolding newTiles_exact[OF dI c bt cbt] spec_swap_def
  proof (rule map_cong[OF refl])
    fix t assume t: "t \<in> set ts"
    have 1: "currentPosition t = currentPosition c \<longleftrightarrow> t = c"
      using distinct_map_eq[OF dP t c] by auto
    have 2: "currentPosition t = currentPosition bt \<longleftrightarrow> t = bt"
      using distinct_map_eq[OF dP t bt(1)] by auto
    show "(if t = c then c\<lparr>currentPosition := currentPosition bt\<rparr>
           else if t = bt then bt\<lparr>currentPosition := currentPosition c\<rparr> else t) =
          (if currentPosition t = currentPosition bt then t\<lparr>currentPosition := currentPosition c\<rparr>
           else if currentPosition t = currentPosition c
                then t\<lparr>currentPosition := currentPosition bt\<rparr> else t)"
      unfolding 1 2 using cbt by auto
  qed
qed

lemma accepted_click:
  assumes "\<not> isSolved s" "find (\<lambda>t. id_tile t = blankTileId N) (tiles s) = Some bt"
    "currentPosition c \<in> set (getValidMoves (currentPosition bt) N)"
  shows "handleTileClick N s c =
     Inr (checkIfSolved (s\<lparr>tiles := newTiles N (tiles s) c bt\<rparr>) (newTiles N (tiles s) c bt))"
  using assms by (simp add: handleTileClick_def Let_def)

lemma rejected_click:
  assumes "find (\<lambda>t. id_tile t = blankTileId N) (tiles s) = Some bt"
    "currentPosition c \<notin> set (getValidMoves (currentPosition bt) N)"
  shows "handleTileClick N s c = Inr s"
  using assms by (simp add: handleTileClick_def Let_def)

lemma locked_click: "isSolved s \<Longrightarrow> handleTileClick N s c = Inr s"
  by (simp add: handleTileClick_def)

lemma locked_clicks: "isSolved s \<Longrightarrow> clicks N s cs = Inr s"
  by (induction cs) (simp_all add: locked_click)

lemma checkIfSolved_flag: "isSolved (checkIfSolved s ts) \<longleftrightarrow> isSolved s \<or> solvedBoard ts"
  by (simp add: checkIfSolved_def Let_def)

lemma checkIfSolved_tiles: "tiles (checkIfSolved s ts) = tiles s"
  by (simp add: checkIfSolved_def Let_def)

lemma click_invariant:
  assumes N: "0 < N" and wf: "wellFormed N (tiles s)" and c: "c \<in> set (tiles s)"
    and fl: "isSolved s \<longrightarrow> solvedBoard (tiles s)"
  shows "\<exists>s'. handleTileClick N s c = Inr s' \<and> wellFormed N (tiles s') \<and>
           (isSolved s' \<longrightarrow> solvedBoard (tiles s'))"
proof -
  from wellFormed_blank[OF N wf] obtain bt
    where bt: "find (\<lambda>t. id_tile t = blankTileId N) (tiles s) = Some bt" "bt \<in> set (tiles s)"
      "id_tile bt = blankTileId N" by auto
  show ?thesis
  proof (cases "accepted N s c")
    case False
    then have "handleTileClick N s c = Inr s"
      using bt(1) locked_click[of s N c] rejected_click[OF bt(1), of c]
      by (auto simp: accepted_def)
    then show ?thesis using wf fl by simp
  next
    case True
    then have ns: "\<not> isSolved s"
      and adj: "currentPosition c \<in> set (getValidMoves (currentPosition bt) N)"
      using bt(1) by (simp_all add: accepted_def)
    have ne: "currentPosition c \<noteq> currentPosition bt"
      using adj self_not_adjacent[OF N, of "currentPosition bt"] by auto
    let ?nt = "newTiles N (tiles s) c bt"
    have nt: "?nt = spec_swap (currentPosition bt) (currentPosition c) (tiles s)"
      using newTiles_spec_swap[OF wf c bt(2,3) ne] .
    have rng: "currentPosition bt \<in> {0..N * N - 1}" "currentPosition c \<in> {0..N * N - 1}"
      using wf bt(2) c unfolding wellFormed_def by (metis (no_types, lifting) image_eqI set_map)+
    have wf': "wellFormed N ?nt" unfolding nt using spec_swap_wellFormed[OF wf rng] .
    have "handleTileClick N s c = Inr (checkIfSolved (s\<lparr>tiles := ?nt\<rparr>) ?nt)"
      using accepted_click[OF ns bt(1) adj] .
    moreover have "tiles (checkIfSolved (s\<lparr>tiles := ?nt\<rparr>) ?nt) = ?nt"
      by (simp add: checkIfSolved_tiles)
    moreover have "isSolved (checkIfSolved (s\<lparr>tiles := ?nt\<rparr>) ?nt) \<longrightarrow> solvedBoard ?nt"
      using ns by (simp add: checkIfSolved_flag)
    ultimately show ?thesis using wf' by simp
  qed
qed

lemma reachable_invariant:
  assumes "2 \<le> N" "reachable N s"
  shows "wellFormed N (tiles s) \<and> (isSolved s \<longrightarrow> solvedBoard (tiles s))"
  using assms(2)
proof (induction rule: reachable.induct)
  case (init rnd s0 s)
  from initializePuzzle_ok[OF assms(1) init(1), of s0] init(2) show ?case by auto
next
  case (click s c s')
  have "0 < N" using assms(1) by simp
  from click_invariant[OF this] click show ?case by fastforce
qed

lemma spec_shuffle_0: "spec_shuffle N rnd 0 = (initialTiles N, blankTileId N)"
  by (simp add: initialTiles_def blankTileId_def totalTiles_def)

subsection \<open>The loop against the specification's shuffle\<close>

lemma shuffleStep_snd:
  "shuffleStep N r (ts, b) = Inr (ts', m) \<Longrightarrow>
     m = getValidMoves b N ! nat \<lfloor>double_mul r (real (length (getValidMoves b N)))\<rfloor>"
  unfolding shuffleStep_def Let_def
  by (auto split: if_splits option.splits)

lemma shuffleStep_refines:
  assumes N: "2 \<le> N" and wf: "wellFormed N ts" and b: "b \<in> {0..N * N - 1}"
    and r: "0 \<le> r" "r \<le> 1 - 1 / 2 ^ 53"
  shows "shuffleStep N r (ts, b) = Inr (spec_shuffle_step N r (ts, b))"
    and "snd (spec_shuffle_step N r (ts, b)) \<in> set (getValidMoves b N)"
proof -
  from shuffleStep_ok[OF N wf b r] obtain m where m: "m \<in> set (getValidMoves b N)"
    and step: "shuffleStep N r (ts, b) = Inr (spec_swap b m ts, m)" by blast
  have "m = getValidMoves b N ! nat \<lfloor>double_mul r (real (length (getValidMoves b N)))\<rfloor>"
    using shuffleStep_snd[OF step] .
  then have eq: "spec_shuffle_step N r (ts, b) = (spec_swap b m ts, m)"
    by (simp add: spec_shuffle_step_def Let_def)
  show "shuffleStep N r (ts, b) = Inr (spec_shuffle_step N r (ts, b))" using step eq by simp
  show "snd (spec_shuffle_step N r (ts, b)) \<in> set (getValidMoves b N)" using m eq by simp
qed

lemma spec_shuffle_invariant:
  assumes N: "2 \<le> N" and rnd: "\<forall>i. 0 \<le> rnd i \<and> rnd i \<le> 1 - 1 / 2 ^ 53"
  shows "wellFormed N (fst (spec_shuffle N rnd n)) \<and>
         snd (spec_shuffle N rnd n) \<in> {0..N * N - 1} \<and>
         blankAt N (fst (spec_shuffle N rnd n)) (snd (spec_shuffle N rnd n))"
proof (induction n)
  case 0
  have "0 < N" using N by simp
  moreover have "blankTileId N \<in> {0..N * N - 1}"
    using N by (simp add: blankTileId_def totalTiles_def)
  ultimately show ?case
    unfolding spec_shuffle_0 using initialTiles_wellFormed[of N] initialTiles_blankAt[of N]
    by simp
next
  case (Suc n)
  obtain ts b where st: "spec_shuffle N rnd n = (ts, b)" by (cases "spec_shuffle N rnd n")
  have wf: "wellFormed N ts" and b: "b \<in> {0..N * N - 1}" and bl: "blankAt N ts b"
    using Suc st by auto
  have r: "0 \<le> rnd n" "rnd n \<le> 1 - 1 / 2 ^ 53" using rnd by auto
  define m where "m = snd (spec_shuffle_step N (rnd n) (ts, b))"
  have m: "m \<in> set (getValidMoves b N)"
    unfolding m_def using shuffleStep_refines(2)[OF N wf b r] .
  have eq: "spec_shuffle N rnd (Suc n) = (spec_swap b m ts, m)"
    by (simp add: st m_def spec_shuffle_step_def Let_def)
  have N0: "0 < N" using N by simp
  have b': "0 \<le> b" "b < N * N" using b by auto
  have mr: "m \<in> {0..N * N - 1}" using getValidMoves_sym[OF N0 b' m] by auto
  show ?case
    unfolding eq using spec_swap_wellFormed[OF wf b mr] mr spec_swap_blankAt[OF bl] by simp
qed

lemma spec_shuffle_legal:
  assumes N: "2 \<le> N" and rnd: "\<forall>i. 0 \<le> rnd i \<and> rnd i \<le> 1 - 1 / 2 ^ 53"
  shows "snd (spec_shuffle N rnd (Suc n)) \<in> set (getValidMoves (snd (spec_shuffle N rnd n)) N)"
proof -
  obtain ts b where st: "spec_shuffle N rnd n = (ts, b)" by (cases "spec_shuffle N rnd n")
  have wf: "wellFormed N ts" and b: "b \<in> {0..N * N - 1}"
    using spec_shuffle_invariant[OF N rnd, of n] st by auto
  have r: "0 \<le> rnd n" "rnd n \<le> 1 - 1 / 2 ^ 53" using rnd by auto
  show ?thesis using shuffleStep_refines(2)[OF N wf b r] st by simp
qed

lemma shuffleLoop_refines:
  assumes N: "2 \<le> N" and rnd: "\<forall>i. 0 \<le> rnd i \<and> rnd i \<le> 1 - 1 / 2 ^ 53"
  shows "k = 100 - i \<Longrightarrow> i \<le> 100 \<Longrightarrow>
     shuffleLoop N rnd i (spec_shuffle N rnd i) = Inr (fst (spec_shuffle N rnd 100))"
proof (induction k arbitrary: i)
  case 0
  then have "i = 100" by simp
  then show ?case by (subst shuffleLoop.simps) simp
next
  case (Suc k)
  then have i: "i < 100" by simp
  obtain ts b where st: "spec_shuffle N rnd i = (ts, b)" by (cases "spec_shuffle N rnd i")
  have wf: "wellFormed N ts" and b: "b \<in> {0..N * N - 1}"
    using spec_shuffle_invariant[OF N rnd, of i] st by auto
  have r: "0 \<le> rnd i" "rnd i \<le> 1 - 1 / 2 ^ 53" using rnd by auto
  have step: "shuffleStep N (rnd i) (spec_shuffle N rnd i) = Inr (spec_shuffle N rnd (Suc i))"
    using shuffleStep_refines(1)[OF N wf b r] st by simp
  have "shuffleLoop N rnd (i + 1) (spec_shuffle N rnd (i + 1)) = Inr (fst (spec_shuffle N rnd 100))"
    using Suc.IH[of "i + 1"] Suc.prems by simp
  then show ?case using i step by (subst shuffleLoop.simps) simp
qed

lemma initializePuzzle_refines:
  assumes N: "2 \<le> N" and rnd: "\<forall>i. 0 \<le> rnd i \<and> rnd i \<le> 1 - 1 / 2 ^ 53"
  shows "initializePuzzle N rnd s0 = Inr (spec_initialize N rnd)"
proof -
  have "shuffleLoop N rnd 0 (spec_shuffle N rnd 0) = Inr (fst (spec_shuffle N rnd 100))"
    using shuffleLoop_refines[OF N rnd, of 100 0] by simp
  then have "shuffleLoop N rnd 0 (initialTiles N, blankTileId N)
      = Inr (fst (spec_shuffle N rnd 100))"
    unfolding spec_shuffle_0 .
  then show ?thesis
    unfolding initializePuzzle_def shufflePuzzle_def spec_initialize_def
    by (simp add: puzzle_upd)
qed

subsection \<open>Two sessions on the 3 by 3 grid\<close>

text \<open>Two shuffles are evaluated: with every random number \<open>1/4\<close> the blank goes from
  cell 8 to cell 5 and then between the cells 2 and 5; with the random numbers \<open>1/4\<close> and
  \<open>1/2\<close> in turn it goes to cell 5 and back to cell 8, so that the board is the identity
  after every second step. The product \<open>0.6666666666666666 * 3\<close> shows the rounding: it
  is below 2, and the binary64 product is 2, so with the valid moves \<open>[2, 8, 4]\<close> of
  cell 5 the loop takes cell 4.\<close>

lemma initialTiles_3:
  "initialTiles 3 =
     [\<lparr>id_tile = 0, currentPosition = 0\<rparr>, \<lparr>id_tile = 1, currentPosition = 1\<rparr>,
      \<lparr>id_tile = 2, currentPosition = 2\<rparr>, \<lparr>id_tile = 3, currentPosition = 3\<rparr>,
      \<lparr>id_tile = 4, currentPosition = 4\<rparr>, \<lparr>id_tile = 5, currentPosition = 5\<rparr>,
      \<lparr>id_tile = 6, currentPosition = 6\<rparr>, \<lparr>id_tile = 7, currentPosition = 7\<rparr>,
      \<lparr>id_tile = 8, currentPosition = 8\<rparr>]"
  by code_simp

lemma pick_quarter_2: "\<lfloor>double_mul (1 / 4) 2\<rfloor> = 0"
  using double_pick_interval(1)[of "1 / 4" 2 0] by simp

lemma pick_quarter_3: "\<lfloor>double_mul (1 / 4) 3\<rfloor> = 0"
  using double_pick_interval(1)[of "1 / 4" 3 0] by simp

lemma pick_half_3: "\<lfloor>double_mul (1 / 2) 3\<rfloor> = 1"
  using double_pick_interval(1)[of "1 / 2" 3 1] by simp

lemma rounded_product_example:
  "\<lfloor>(6004799503160661 / 9007199254740992 :: real) * 3\<rfloor> = 1 \<and>
   \<lfloor>double_mul (6004799503160661 / 9007199254740992) 3\<rfloor> = 2"
  by code_simp

lemma shuffleStep_rounding_example:
  "shuffleStep 3 (6004799503160661 / 9007199254740992)
     ([\<lparr>id_tile = 0, currentPosition = 0\<rparr>, \<lparr>id_tile = 1, currentPosition = 1\<rparr>,
       \<lparr>id_tile = 2, currentPosition = 2\<rparr>, \<lparr>id_tile = 3, currentPosition = 3\<rparr>,
       \<lparr>id_tile = 4, currentPosition = 4\<rparr>, \<lparr>id_tile = 5, currentPosition = 8\<rparr>,
       \<lparr>id_tile = 6, currentPosition = 6\<rparr>, \<lparr>id_tile = 7, currentPosition = 7\<rparr>,
       \<lparr>id_tile = 8, currentPosition = 5\<rparr>], 5) =
   Inr ([\<lparr>id_tile = 0, currentPosition = 0\<rparr>, \<lparr>id_tile = 1, currentPosition = 1\<rparr>,
       \<lparr>id_tile = 2, currentPosition = 2\<rparr>, \<lparr>id_tile = 3, currentPosition = 3\<rparr>,
       \<lparr>id_tile = 4, currentPosition = 5\<rparr>, \<lparr>id_tile = 5, currentPosition = 8\<rparr>,
       \<lparr>id_tile = 6, currentPosition = 6\<rparr>, \<lparr>id_tile = 7, currentPosition = 7\<rparr>,
       \<lparr>id_tile = 8, currentPosition = 4\<rparr>], 4)"
  by code_simp

lemma step_from_8:
  "spec_shuffle_step 3 (1 / 4) (initialTiles 3, 8) =
     ([\<lparr>id_tile = 0, currentPosition = 0\<rparr>, \<lparr>id_tile = 1, currentPosition = 1\<rparr>,
       \<lparr>id_tile = 2, currentPosition = 2\<rparr>, \<lparr>id_tile = 3, currentPosition = 3\<rparr>,
       \<lparr>id_tile = 4, currentPosition = 4\<rparr>, \<lparr>id_tile = 5, currentPosition = 8\<rparr>,
       \<lparr>id_tile = 6, currentPosition = 6\<rparr>, \<lparr>id_tile = 7, currentPosition = 7\<rparr>,
       \<lparr>id_tile = 8, currentPosition = 5\<rparr>], 5)"
  by (simp add: spec_shuffle_step_def initialTiles_3 getValidMoves_def js_rem_def pick_quarter_2
      spec_swap_def)

lemma step_from_5_up:
  "spec_shuffle_step 3 (1 / 4)
     ([\<lparr>id_tile = 0, currentPosition = 0\<rparr>, \<lparr>id_tile = 1, currentPosition = 1\<rparr>,
       \<lparr>id_tile = 2, currentPosition = p\<rparr>, \<lparr>id_tile = 3, currentPosition = 3\<rparr>,
       \<lparr>id_tile = 4, currentPosition = 4\<rparr>, \<lparr>id_tile = 5, currentPosition = 8\<rparr>,
       \<lparr>id_tile = 6, currentPosition = 6\<rparr>, \<lparr>id_tile = 7, currentPosition = 7\<rparr>,
       \<lparr>id_tile = 8, currentPosition = 5\<rparr>], 5) =
     ([\<lparr>id_tile = 0, currentPosition = 0\<rparr>, \<lparr>id_tile = 1, currentPosition = 1\<rparr>,
       \<lparr>id_tile = 2, currentPosition = 5\<rparr>, \<lparr>id_tile = 3, currentPosition = 3\<rparr>,
       \<lparr>id_tile = 4, currentPosition = 4\<rparr>, \<lparr>id_tile = 5, currentPosition = 8\<rparr>,
       \<lparr>id_tile = 6, currentPosition = 6\<rparr>, \<lparr>id_tile = 7, currentPosition = 7\<rparr>,
       \<lparr>id_tile = 8, currentPosition = 2\<rparr>], 2)" if "p = 2" for p :: int
  using that
  by (simp add: spec_shuffle_step_def getValidMoves_def js_rem_def pick_quarter_3 spec_swap_def)

lemma step_from_2:
  "spec_shuffle_step 3 (1 / 4)
     ([\<lparr>id_tile = 0, currentPosition = 0\<rparr>, \<lparr>id_tile = 1, currentPosition = 1\<rparr>,
       \<lparr>id_tile = 2, currentPosition = 5\<rparr>, \<lparr>id_tile = 3, currentPosition = 3\<rparr>,
       \<lparr>id_tile = 4, currentPosition = 4\<rparr>, \<lparr>id_tile = 5, currentPosition = 8\<rparr>,
       \<lparr>id_tile = 6, currentPosition = 6\<rparr>, \<lparr>id_tile = 7, currentPosition = 7\<rparr>,
       \<lparr>id_tile = 8, currentPosition = 2\<rparr>], 2) =
     ([\<lparr>id_tile = 0, currentPosition = 0\<rparr>, \<lparr>id_tile = 1, currentPosition = 1\<rparr>,
       \<lparr>id_tile = 2, currentPosition = 2\<rparr>, \<lparr>id_tile = 3, currentPosition = 3\<rparr>,
       \<lparr>id_tile = 4, currentPosition = 4\<rparr>, \<lparr>id_tile = 5, currentPosition = 8\<rparr>,
       \<lparr>id_tile = 6, currentPosition = 6\<rparr>, \<lparr>id_tile = 7, currentPosition = 7\<rparr>,
       \<lparr>id_tile = 8, currentPosition = 5\<rparr>], 5)"
  by (simp add: spec_shuffle_step_def getValidMoves_def js_rem_def pick_quarter_2 spec_swap_def)

lemma step_from_5_back:
  "spec_shuffle_step 3 (1 / 2)
     ([\<lparr>id_tile = 0, currentPosition = 0\<rparr>, \<lparr>id_tile = 1, currentPosition = 1\<rparr>,
       \<lparr>id_tile = 2, currentPosition = 2\<rparr>, \<lparr>id_tile = 3, currentPosition = 3\<rparr>,
       \<lparr>id_tile = 4, currentPosition = 4\<rparr>, \<lparr>id_tile = 5, currentPosition = 8\<rparr>,
       \<lparr>id_tile = 6, currentPosition = 6\<rparr>, \<lparr>id_tile = 7, currentPosition = 7\<rparr>,
       \<lparr>id_tile = 8, currentPosition = 5\<rparr>], 5) = (initialTiles 3, 8)"
  by (simp add: spec_shuffle_step_def initialTiles_3 getValidMoves_def js_rem_def pick_half_3
      spec_swap_def)

lemma spec_shuffle_two_steps:
  "spec_shuffle N rnd (Suc (Suc n)) =
     spec_shuffle_step N (rnd (Suc n)) (spec_shuffle_step N (rnd n) (spec_shuffle N rnd n))"
  by simp

lemma spec_shuffle_3_0: "spec_shuffle 3 rnd 0 = (initialTiles 3, 8)"
  unfolding spec_shuffle_0 by (simp add: blankTileId_def totalTiles_def)

lemma spec_shuffle_quarter:
  "spec_shuffle 3 (\<lambda>_. 1 / 4) (Suc (Suc (2 * n))) =
     ([\<lparr>id_tile = 0, currentPosition = 0\<rparr>, \<lparr>id_tile = 1, currentPosition = 1\<rparr>,
       \<lparr>id_tile = 2, currentPosition = 5\<rparr>, \<lparr>id_tile = 3, currentPosition = 3\<rparr>,
       \<lparr>id_tile = 4, currentPosition = 4\<rparr>, \<lparr>id_tile = 5, currentPosition = 8\<rparr>,
       \<lparr>id_tile = 6, currentPosition = 6\<rparr>, \<lparr>id_tile = 7, currentPosition = 7\<rparr>,
       \<lparr>id_tile = 8, currentPosition = 2\<rparr>], 2)"
proof (induction n)
  case 0
  have "spec_shuffle 3 (\<lambda>_. 1 / 4) (Suc (Suc 0)) =
     ([\<lparr>id_tile = 0, currentPosition = 0\<rparr>, \<lparr>id_tile = 1, currentPosition = 1\<rparr>,
       \<lparr>id_tile = 2, currentPosition = 5\<rparr>, \<lparr>id_tile = 3, currentPosition = 3\<rparr>,
       \<lparr>id_tile = 4, currentPosition = 4\<rparr>, \<lparr>id_tile = 5, currentPosition = 8\<rparr>,
       \<lparr>id_tile = 6, currentPosition = 6\<rparr>, \<lparr>id_tile = 7, currentPosition = 7\<rparr>,
       \<lparr>id_tile = 8, currentPosition = 2\<rparr>], 2)"
    by (subst spec_shuffle_two_steps) (simp only: spec_shuffle_3_0 step_from_8 step_from_5_up)
  then show ?case by (simp del: spec_shuffle.simps)
next
  case (Suc n)
  have "spec_shuffle 3 (\<lambda>_. 1 / 4) (Suc (Suc (Suc (Suc (2 * n))))) =
     ([\<lparr>id_tile = 0, currentPosition = 0\<rparr>, \<lparr>id_tile = 1, currentPosition = 1\<rparr>,
       \<lparr>id_tile = 2, currentPosition = 5\<rparr>, \<lparr>id_tile = 3, currentPosition = 3\<rparr>,
       \<lparr>id_tile = 4, currentPosition = 4\<rparr>, \<lparr>id_tile = 5, currentPosition = 8\<rparr>,
       \<lparr>id_tile = 6, currentPosition = 6\<rparr>, \<lparr>id_tile = 7, currentPosition = 7\<rparr>,
       \<lparr>id_tile = 8, currentPosition = 2\<rparr>], 2)"
    by (subst spec_shuffle_two_steps) (simp only: Suc.IH step_from_2 step_from_5_up)
  then show ?case by (simp del: spec_shuffle.simps)
qed

lemma spec_shuffle_alternating:
  "spec_shuffle 3 (\<lambda>i. if even i then 1 / 4 else 1 / 2) (2 * n) = (initialTiles 3, 8)"
proof (induction n)
  case 0
  then show ?case using spec_shuffle_3_0 by (simp del: spec_shuffle.simps)
next
  case (Suc n)
  have "spec_shuffle 3 (\<lambda>i. if even i then 1 / 4 else 1 / 2) (Suc (Suc (2 * n))) =
      spec_shuffle_step 3 (1 / 2) (spec_shuffle_step 3 (1 / 4)
        (spec_shuffle 3 (\<lambda>i. if even i then 1 / 4 else 1 / 2) (2 * n)))"
    by (subst spec_shuffle_two_steps) simp
  then have "spec_shuffle 3 (\<lambda>i. if even i then 1 / 4 else 1 / 2) (Suc (Suc (2 * n))) =
      (initialTiles 3, 8)"
    by (simp only: Suc.IH step_from_8 step_from_5_back)
  then show ?case by (simp del: spec_shuffle.simps)
qed

lemma initialize_quarter:
  "initializePuzzle 3 (\<lambda>_. 1 / 4) s0 = Inr \<lparr>tiles =
        [\<lparr>id_tile = 0, currentPosition = 0\<rparr>, \<lparr>id_tile = 1, currentPosition = 1\<rparr>,
         \<lparr>id_tile = 2, currentPosition = 5\<rparr>, \<lparr>id_tile = 3, currentPosition = 3\<rparr>,
         \<lparr>id_tile = 4, currentPosition = 4\<rparr>, \<lparr>id_tile = 5, currentPosition = 8\<rparr>,
         \<lparr>id_tile = 6, currentPosition = 6\<rparr>, \<lparr>id_tile = 7, currentPosition = 7\<rparr>,
         \<lparr>id_tile = 8, currentPosition = 2\<rparr>], isSolved = False\<rparr>"
proof -
  have "\<forall>i::nat. (0::real) \<le> 1 / 4 \<and> (1 / 4::real) \<le> 1 - 1 / 2 ^ 53" by simp
  then have "initializePuzzle 3 (\<lambda>_. 1 / 4) s0 = Inr (spec_initialize 3 (\<lambda>_. 1 / 4))"
    by (intro initializePuzzle_refines) simp_all
  moreover have "spec_shuffle 3 (\<lambda>_. 1 / 4) 100 = spec_shuffle 3 (\<lambda>_. 1 / 4) (Suc (Suc (2 * 49)))"
    by (simp del: spec_shuffle.simps)
  ultimately show ?thesis
    unfolding spec_initialize_def spec_shuffle_quarter by (simp del: spec_shuffle.simps)
qed

lemma initialize_alternating:
  "initializePuzzle 3 (\<lambda>i. if even i then 1 / 4 else 1 / 2) s0 =
     Inr \<lparr>tiles = initialTiles 3, isSolved = False\<rparr>"
proof -
  have "\<forall>i::nat. (0::real) \<le> (if even i then 1 / 4 else 1 / 2) \<and>
      (if even i then 1 / 4 else 1 / 2 :: real) \<le> 1 - 1 / 2 ^ 53" by simp
  then have "initializePuzzle 3 (\<lambda>i. if even i then 1 / 4 else 1 / 2) s0 =
      Inr (spec_initialize 3 (\<lambda>i. if even i then 1 / 4 else 1 / 2))"
    by (intro initializePuzzle_refines) simp_all
  moreover have "spec_shuffle 3 (\<lambda>i. if even i then 1 / 4 else 1 / 2) 100 =
      spec_shuffle 3 (\<lambda>i. if even i then 1 / 4 else 1 / 2) (2 * 50)"
    by (simp del: spec_shuffle.simps)
  ultimately show ?thesis
    unfolding spec_initialize_def spec_shuffle_alternating by (simp del: spec_shuffle.simps)
qed

lemma shuffled_3_reachable:
  "reachable 3 \<lparr>tiles =
        [\<lparr>id_tile = 0, currentPosition = 0\<rparr>, \<lparr>id_tile = 1, currentPosition = 1\<rparr>,
         \<lparr>id_tile = 2, currentPosition = 5\<rparr>, \<lparr>id_tile = 3, currentPosition = 3\<rparr>,
         \<lparr>id_tile = 4, currentPosition = 4\<rparr>, \<lparr>id_tile = 5, currentPosition = 8\<rparr>,
         \<lparr>id_tile = 6, currentPosition = 6\<rparr>, \<lparr>id_tile = 7, currentPosition = 7\<rparr>,
         \<lparr>id_tile = 8, currentPosition = 2\<rparr>], isSolved = False\<rparr>"
proof (rule reachable.init[of "\<lambda>_. 1 / 4" 3 "\<lparr>tiles = [], isSolved = False\<rparr>"])
  show "\<forall>i::nat. (0::real) \<le> 1 / 4 \<and> (1 / 4::real) \<le> 1 - 1 / 2 ^ 53" by simp
  show "initializePuzzle 3 (\<lambda>_. 1 / 4) \<lparr>tiles = [], isSolved = False\<rparr> = Inr \<lparr>tiles =
        [\<lparr>id_tile = 0, currentPosition = 0\<rparr>, \<lparr>id_tile = 1, currentPosition = 1\<rparr>,
         \<lparr>id_tile = 2, currentPosition = 5\<rparr>, \<lparr>id_tile = 3, currentPosition = 3\<rparr>,
         \<lparr>id_tile = 4, currentPosition = 4\<rparr>, \<lparr>id_tile = 5, currentPosition = 8\<rparr>,
         \<lparr>id_tile = 6, currentPosition = 6\<rparr>, \<lparr>id_tile = 7, currentPosition = 7\<rparr>,
         \<lparr>id_tile = 8, currentPosition = 2\<rparr>], isSolved = False\<rparr>"
    by (rule initialize_quarter)
qed

lemma getValidMoves_distinct: "2 \<le> N \<Longrightarrow> distinct (getValidMoves p N)"
  unfolding getValidMoves_def Let_def by auto

lemma solved_3_reachable: "reachable 3 \<lparr>tiles = initialTiles 3, isSolved = True\<rparr>"
proof -
  let ?rnd = "\<lambda>i::nat. if even i then (1/4::real) else 1/2"
  have "\<forall>i. 0 \<le> ?rnd i \<and> ?rnd i \<le> 1 - 1 / 2 ^ 53" by simp
  moreover have "initializePuzzle 3 ?rnd \<lparr>tiles = [], isSolved = False\<rparr>
      = Inr \<lparr>tiles = initialTiles 3, isSolved = False\<rparr>"
    by (rule initialize_alternating)
  ultimately have 0: "reachable 3 \<lparr>tiles = initialTiles 3, isSolved = False\<rparr>"
    by (rule reachable.init)
  let ?mid = "\<lparr>tiles =
        [\<lparr>id_tile = 0, currentPosition = 0\<rparr>, \<lparr>id_tile = 1, currentPosition = 1\<rparr>,
         \<lparr>id_tile = 2, currentPosition = 2\<rparr>, \<lparr>id_tile = 3, currentPosition = 3\<rparr>,
         \<lparr>id_tile = 4, currentPosition = 4\<rparr>, \<lparr>id_tile = 5, currentPosition = 8\<rparr>,
         \<lparr>id_tile = 6, currentPosition = 6\<rparr>, \<lparr>id_tile = 7, currentPosition = 7\<rparr>,
         \<lparr>id_tile = 8, currentPosition = 5\<rparr>], isSolved = False\<rparr>"
  have "\<lparr>id_tile = 5, currentPosition = 5\<rparr> \<in> set (tiles \<lparr>tiles = initialTiles 3, isSolved = False\<rparr>)"
    by code_simp
  moreover have "handleTileClick 3 \<lparr>tiles = initialTiles 3, isSolved = False\<rparr>
      \<lparr>id_tile = 5, currentPosition = 5\<rparr> = Inr ?mid"
    by code_simp
  ultimately have 1: "reachable 3 ?mid" using 0 by (metis reachable.click)
  have "\<lparr>id_tile = 5, currentPosition = 8\<rparr> \<in> set (tiles ?mid)" by simp
  moreover have "handleTileClick 3 ?mid \<lparr>id_tile = 5, currentPosition = 8\<rparr>
      = Inr \<lparr>tiles = initialTiles 3, isSolved = True\<rparr>"
    by code_simp
  ultimately show ?thesis using 1 by (metis reachable.click)
qed

lemma shuffled_3_solution:
  "legalSolution 3 \<lparr>tiles =
        [\<lparr>id_tile = 0, currentPosition = 0\<rparr>, \<lparr>id_tile = 1, currentPosition = 1\<rparr>,
         \<lparr>id_tile = 2, currentPosition = 5\<rparr>, \<lparr>id_tile = 3, currentPosition = 3\<rparr>,
         \<lparr>id_tile = 4, currentPosition = 4\<rparr>, \<lparr>id_tile = 5, currentPosition = 8\<rparr>,
         \<lparr>id_tile = 6, currentPosition = 6\<rparr>, \<lparr>id_tile = 7, currentPosition = 7\<rparr>,
         \<lparr>id_tile = 8, currentPosition = 2\<rparr>], isSolved = False\<rparr> [2, 5]"
  by code_simp

subsection \<open>The move counter and the choice of the shuffle\<close>




lemma checkIfSolved_moves_update:
  "checkIfSolved (s\<lparr>moves := k\<rparr>) ts = (checkIfSolved s ts)\<lparr>moves := k\<rparr>"
  by (simp add: checkIfSolved_def Let_def)

lemma spec_shuffle_choice:
  assumes N: "2 \<le> N" and rnd: "\<forall>i. 0 \<le> rnd i \<and> rnd i \<le> 1 - 1 / 2 ^ 53"
    and k: "k < length (getValidMoves (snd (spec_shuffle N rnd n)) N)"
  shows "(real k \<le> rnd n * real (length (getValidMoves (snd (spec_shuffle N rnd n)) N)) \<and>
          rnd n * real (length (getValidMoves (snd (spec_shuffle N rnd n)) N))
            < real k + 1 - 1 / 2 ^ 52
          \<longrightarrow> snd (spec_shuffle N rnd (Suc n)) = getValidMoves (snd (spec_shuffle N rnd n)) N ! k) \<and>
         (snd (spec_shuffle N rnd (Suc n)) = getValidMoves (snd (spec_shuffle N rnd n)) N ! k
          \<longrightarrow> real k - 1 / 2 ^ 52
                \<le> rnd n * real (length (getValidMoves (snd (spec_shuffle N rnd n)) N)) \<and>
              rnd n * real (length (getValidMoves (snd (spec_shuffle N rnd n)) N)) < real k + 1)"
proof -
  define adj where "adj = getValidMoves (snd (spec_shuffle N rnd n)) N"
  have kl: "k < length adj" using k by (simp add: adj_def)
  have le4: "length adj \<le> 4" unfolding adj_def by (rule getValidMoves_length_le)
  have r: "0 \<le> rnd n" "rnd n \<le> 1 - 1 / 2 ^ 53" using rnd by auto
  have "length adj = 1 \<or> length adj = 2 \<or> length adj = 3 \<or> length adj = 4"
    using kl le4 by linarith
  then have fl: "0 \<le> \<lfloor>double_mul (rnd n) (real (length adj))\<rfloor>"
    "\<lfloor>double_mul (rnd n) (real (length adj))\<rfloor> < int (length adj)"
    using double_pick[OF r] by auto
  then have k': "nat \<lfloor>double_mul (rnd n) (real (length adj))\<rfloor> < length adj"
    by (simp add: nat_less_iff)
  have d: "distinct adj" unfolding adj_def using getValidMoves_distinct[OF N] .
  have "snd (spec_shuffle N rnd (Suc n)) = adj ! nat \<lfloor>double_mul (rnd n) (real (length adj))\<rfloor>"
    by (simp add: spec_shuffle_step_def Let_def adj_def)
  then have "snd (spec_shuffle N rnd (Suc n)) = adj ! k
      \<longleftrightarrow> nat \<lfloor>double_mul (rnd n) (real (length adj))\<rfloor> = k"
    using nth_eq_iff_index_eq[OF d k' kl] by simp
  also have "\<dots> \<longleftrightarrow> \<lfloor>double_mul (rnd n) (real (length adj))\<rfloor> = int k" using fl by auto
  finally have eq: "snd (spec_shuffle N rnd (Suc n)) = adj ! k
      \<longleftrightarrow> \<lfloor>double_mul (rnd n) (real (length adj))\<rfloor> = int k" .
  show ?thesis
    unfolding adj_def[symmetric] eq
    using double_pick_interval[OF r le4, of k] by blast
qed



section \<open>The claims\<close>

text \<open>Claim C1. Every board that \<^verbatim>\<open>initializePuzzle\<close> produces (for a grid size of at
  least 2 and random numbers from 0 to \<open>1 - 2\<^sup>-\<^sup>5\<^sup>3\<close>, which are all the binary64 numbers
  of \<open>[0, 1)\<close>; the call always returns) has a solution: a
  finite sequence of clicks, each a legal move from the blank's current cell by
  \<^verbatim>\<open>getValidMoves\<close>, after which every tile's currentPosition is its id.\<close>

theorem initialize_solvable:
  assumes "2 \<le> N" and "\<forall>i. 0 \<le> rnd i \<and> rnd i \<le> 1 - 1 / 2 ^ 53"
  shows "\<exists>s ks. initializePuzzle N rnd s0 = Inr s \<and> legalSolution N s ks"
proof -
  from initializePuzzle_ok[OF assms, of s0] obtain ts
    where ts: "initializePuzzle N rnd s0 = Inr (s0\<lparr>tiles := ts, isSolved := False\<rparr>)"
      and "solvable N ts" by blast
  then obtain ks where "legalSolution N \<lparr>tiles = ts, isSolved = False\<rparr> ks"
    unfolding solvable_def by blast
  then show ?thesis using ts by (auto simp: puzzle_upd)
qed

theorem initialize_solvable_witness:
  "\<exists>ks. legalSolution 3 \<lparr>tiles =
        [\<lparr>id_tile = 0, currentPosition = 0\<rparr>, \<lparr>id_tile = 1, currentPosition = 1\<rparr>,
         \<lparr>id_tile = 2, currentPosition = 5\<rparr>, \<lparr>id_tile = 3, currentPosition = 3\<rparr>,
         \<lparr>id_tile = 4, currentPosition = 4\<rparr>, \<lparr>id_tile = 5, currentPosition = 8\<rparr>,
         \<lparr>id_tile = 6, currentPosition = 6\<rparr>, \<lparr>id_tile = 7, currentPosition = 7\<rparr>,
         \<lparr>id_tile = 8, currentPosition = 2\<rparr>], isSolved = False\<rparr> ks"
proof -
  have "initializePuzzle 3 (\<lambda>_. 1 / 4) \<lparr>tiles = [], isSolved = False\<rparr> = Inr \<lparr>tiles =
        [\<lparr>id_tile = 0, currentPosition = 0\<rparr>, \<lparr>id_tile = 1, currentPosition = 1\<rparr>,
         \<lparr>id_tile = 2, currentPosition = 5\<rparr>, \<lparr>id_tile = 3, currentPosition = 3\<rparr>,
         \<lparr>id_tile = 4, currentPosition = 4\<rparr>, \<lparr>id_tile = 5, currentPosition = 8\<rparr>,
         \<lparr>id_tile = 6, currentPosition = 6\<rparr>, \<lparr>id_tile = 7, currentPosition = 7\<rparr>,
         \<lparr>id_tile = 8, currentPosition = 2\<rparr>], isSolved = False\<rparr>"
    by (rule initialize_quarter)
  then show ?thesis
    using initialize_solvable[of 3 "\<lambda>_. 1 / 4" "\<lparr>tiles = [], isSolved = False\<rparr>"] by simp
qed

text \<open>Claim C2. For every grid size \<open>N \<ge> 2\<close>, in every state of a session (after
  \<^verbatim>\<open>initializePuzzle\<close> and after every click, accepted or not) the currentPosition
  values of the tiles are a permutation of the cells \<open>0, \<dots>, N\<^sup>2 - 1\<close>: each cell occurs
  exactly once.\<close>

theorem permutation_invariant:
  assumes "2 \<le> N" and "reachable N s"
  shows "mset (map currentPosition (tiles s)) = mset [0..N * N - 1]"
proof -
  have wf: "wellFormed N (tiles s)" using reachable_invariant[OF assms] by simp
  then have "distinct (map currentPosition (tiles s))"
    and "set (map currentPosition (tiles s)) = set [0..N * N - 1]"
    by (simp_all add: wellFormed_def)
  then show ?thesis using set_eq_iff_mset_eq_distinct[of "map currentPosition (tiles s)" "[0..N * N - 1]"]
    by simp
qed

theorem permutation_invariant_witness:
  "reachable 3 \<lparr>tiles =
        [\<lparr>id_tile = 0, currentPosition = 0\<rparr>, \<lparr>id_tile = 1, currentPosition = 1\<rparr>,
         \<lparr>id_tile = 2, currentPosition = 5\<rparr>, \<lparr>id_tile = 3, currentPosition = 3\<rparr>,
         \<lparr>id_tile = 4, currentPosition = 4\<rparr>, \<lparr>id_tile = 5, currentPosition = 8\<rparr>,
         \<lparr>id_tile = 6, currentPosition = 6\<rparr>, \<lparr>id_tile = 7, currentPosition = 7\<rparr>,
         \<lparr>id_tile = 8, currentPosition = 2\<rparr>], isSolved = False\<rparr> \<and>
   mset [0, 1, 5, 3, 4, 8, 6, 7, 2] = mset [0..(3::int) * 3 - 1]"
  using permutation_invariant[OF _ shuffled_3_reachable] shuffled_3_reachable by simp

text \<open>Claim C3. For every \<open>N \<ge> 2\<close> and every cell \<open>p\<close> of the grid, \<^verbatim>\<open>getValidMoves\<close>
  returns the orthogonal neighbours of \<open>p\<close> in the order up, down, left, right, each one
  under its condition on the row \<open>p div N\<close> and the column \<open>p mod N\<close>; these are exactly
  the cells of the grid at distance one from \<open>p\<close>. It returns 2 cells for the four corner
  cells, 3 for the other cells of the border and 4 for the inner cells. For \<open>N = 3\<close>:
  \<open>[3, 1]\<close> at cell 0, \<open>[1, 7, 3, 5]\<close> at cell 4 and \<open>[5, 7]\<close> at cell 8.\<close>

theorem getValidMoves_adjacency:
  assumes "2 \<le> N" and "0 \<le> p" and "p < N * N"
  shows "getValidMoves p N =
           (if 0 < p div N then [p - N] else []) @
           (if p div N < N - 1 then [p + N] else []) @
           (if 0 < p mod N then [p - 1] else []) @
           (if p mod N < N - 1 then [p + 1] else []) \<and>
         set (getValidMoves p N) =
           {m. 0 \<le> m \<and> m < N * N \<and> \<bar>m div N - p div N\<bar> + \<bar>m mod N - p mod N\<bar> = 1} \<and>
         length (getValidMoves p N) =
           (if p \<in> {0, N - 1, N * N - N, N * N - 1} then 2
            else if p div N = 0 \<or> p div N = N - 1 \<or> p mod N = 0 \<or> p mod N = N - 1 then 3
            else 4) \<and>
         getValidMoves 0 3 = [3, 1] \<and>
         getValidMoves 4 3 = [1, 7, 3, 5] \<and>
         getValidMoves 8 3 = [5, 7]"
proof -
  have N0: "0 < N" using assms(1) by simp
  have "length (getValidMoves p N) =
           (if p \<in> {0, N - 1, N * N - N, N * N - 1} then 2
            else if p div N = 0 \<or> p div N = N - 1 \<or> p mod N = 0 \<or> p mod N = N - 1 then 3
            else 4)"
    unfolding getValidMoves_length[OF assms] corner_cells[OF assms] by simp
  moreover have "getValidMoves 0 3 = [3, 1]" "getValidMoves 4 3 = [1, 7, 3, 5]"
    "getValidMoves 8 3 = [5, 7]"
    by (simp_all add: getValidMoves_def js_rem_def)
  ultimately show ?thesis
    using getValidMoves_grid[OF N0 assms(2)] getValidMoves_neighbours[OF N0 assms(2,3)]
    by blast
qed

theorem getValidMoves_adjacency_witness:
  "getValidMoves 7 4 = [3, 11, 6] \<and> length (getValidMoves 7 4) = 3 \<and>
   set (getValidMoves 5 4) = {1, 9, 4, 6} \<and> length (getValidMoves 12 4) = 2"
proof -
  have "getValidMoves 7 4 = [3, 11, 6] \<and> length (getValidMoves 7 4) = 3"
    using getValidMoves_adjacency[of 4 7] by simp
  moreover have "set (getValidMoves 5 4) = {1, 9, 4, 6}"
    using getValidMoves_adjacency[of 4 5] by (simp add: getValidMoves_def js_rem_def)
  moreover have "length (getValidMoves 12 4) = 2"
    using getValidMoves_adjacency[of 4 12] by simp
  ultimately show ?thesis by blast
qed

text \<open>Claim C4. In a state of a session whose board is not solved, a click on a tile in a
  cell next to the blank's cell (by \<^verbatim>\<open>getValidMoves\<close>) is an exact exchange: the clicked
  tile gets the blank's former cell, the blank gets the clicked tile's former cell, and
  every other tile keeps its id and its cell.\<close>

theorem accepted_click_swaps:
  assumes "2 \<le> N" and "reachable N s" and "\<not> solvedBoard (tiles s)"
    and "c \<in> set (tiles s)"
    and "find (\<lambda>t. id_tile t = blankTileId N) (tiles s) = Some b"
    and "currentPosition c \<in> set (getValidMoves (currentPosition b) N)"
  shows "\<exists>s'. handleTileClick N s c = Inr s' \<and>
           tiles s' = map (\<lambda>t. if t = c then c\<lparr>currentPosition := currentPosition b\<rparr>
                               else if t = b then b\<lparr>currentPosition := currentPosition c\<rparr>
                               else t) (tiles s)"
proof -
  have inv: "wellFormed N (tiles s)" "isSolved s \<longrightarrow> solvedBoard (tiles s)"
    using reachable_invariant[OF assms(1,2)] by simp_all
  have ns: "\<not> isSolved s" using inv(2) assms(3) by blast
  have b: "b \<in> set (tiles s)" "id_tile b = blankTileId N"
    using find_Some_in[OF assms(5)] by simp_all
  have "0 < N" using assms(1) by simp
  then have "c \<noteq> b" using assms(6) self_not_adjacent[of N "currentPosition b"] by auto
  then have "newTiles N (tiles s) c b =
      map (\<lambda>t. if t = c then c\<lparr>currentPosition := currentPosition b\<rparr>
                else if t = b then b\<lparr>currentPosition := currentPosition c\<rparr>
                else t) (tiles s)"
    using newTiles_exact[OF wellFormed_ids[OF inv(1)] assms(4) b] by simp
  then show ?thesis
    using accepted_click[OF ns assms(5,6)] by (simp add: checkIfSolved_tiles)
qed

theorem accepted_click_swaps_witness:
  "\<exists>s'. handleTileClick 3 \<lparr>tiles =
        [\<lparr>id_tile = 0, currentPosition = 0\<rparr>, \<lparr>id_tile = 1, currentPosition = 1\<rparr>,
         \<lparr>id_tile = 2, currentPosition = 5\<rparr>, \<lparr>id_tile = 3, currentPosition = 3\<rparr>,
         \<lparr>id_tile = 4, currentPosition = 4\<rparr>, \<lparr>id_tile = 5, currentPosition = 8\<rparr>,
         \<lparr>id_tile = 6, currentPosition = 6\<rparr>, \<lparr>id_tile = 7, currentPosition = 7\<rparr>,
         \<lparr>id_tile = 8, currentPosition = 2\<rparr>], isSolved = False\<rparr>
        \<lparr>id_tile = 2, currentPosition = 5\<rparr> = Inr s' \<and>
      tiles s' =
        [\<lparr>id_tile = 0, currentPosition = 0\<rparr>, \<lparr>id_tile = 1, currentPosition = 1\<rparr>,
         \<lparr>id_tile = 2, currentPosition = 2\<rparr>, \<lparr>id_tile = 3, currentPosition = 3\<rparr>,
         \<lparr>id_tile = 4, currentPosition = 4\<rparr>, \<lparr>id_tile = 5, currentPosition = 8\<rparr>,
         \<lparr>id_tile = 6, currentPosition = 6\<rparr>, \<lparr>id_tile = 7, currentPosition = 7\<rparr>,
         \<lparr>id_tile = 8, currentPosition = 5\<rparr>]"
  using accepted_click_swaps[OF _ shuffled_3_reachable,
      of "\<lparr>id_tile = 2, currentPosition = 5\<rparr>" "\<lparr>id_tile = 8, currentPosition = 2\<rparr>"]
  by (simp add: solvedBoard_def blankTileId_def totalTiles_def getValidMoves_def js_rem_def)

text \<open>Claim C5. In a state of a session whose board is not solved, a click on a tile
  whose cell is not among the valid moves from the blank's cell is no error and changes
  nothing: the handler returns the state as it was, so the board is unchanged, and the
  solved flag of the returned state is false.\<close>

theorem nonadjacent_click_noop:
  assumes "2 \<le> N" and "reachable N s" and "\<not> solvedBoard (tiles s)"
    and "find (\<lambda>t. id_tile t = blankTileId N) (tiles s) = Some b"
    and "currentPosition c \<notin> set (getValidMoves (currentPosition b) N)"
  shows "handleTileClick N s c = Inr s \<and> \<not> isSolved s"
proof -
  have "isSolved s \<longrightarrow> solvedBoard (tiles s)"
    using reachable_invariant[OF assms(1,2)] by simp
  then have "\<not> isSolved s" using assms(3) by blast
  then show ?thesis using rejected_click[OF assms(4,5)] by simp
qed

theorem nonadjacent_click_noop_witness:
  "handleTileClick 3 \<lparr>tiles =
        [\<lparr>id_tile = 0, currentPosition = 0\<rparr>, \<lparr>id_tile = 1, currentPosition = 1\<rparr>,
         \<lparr>id_tile = 2, currentPosition = 5\<rparr>, \<lparr>id_tile = 3, currentPosition = 3\<rparr>,
         \<lparr>id_tile = 4, currentPosition = 4\<rparr>, \<lparr>id_tile = 5, currentPosition = 8\<rparr>,
         \<lparr>id_tile = 6, currentPosition = 6\<rparr>, \<lparr>id_tile = 7, currentPosition = 7\<rparr>,
         \<lparr>id_tile = 8, currentPosition = 2\<rparr>], isSolved = False\<rparr>
        \<lparr>id_tile = 4, currentPosition = 4\<rparr>
   = Inr \<lparr>tiles =
        [\<lparr>id_tile = 0, currentPosition = 0\<rparr>, \<lparr>id_tile = 1, currentPosition = 1\<rparr>,
         \<lparr>id_tile = 2, currentPosition = 5\<rparr>, \<lparr>id_tile = 3, currentPosition = 3\<rparr>,
         \<lparr>id_tile = 4, currentPosition = 4\<rparr>, \<lparr>id_tile = 5, currentPosition = 8\<rparr>,
         \<lparr>id_tile = 6, currentPosition = 6\<rparr>, \<lparr>id_tile = 7, currentPosition = 7\<rparr>,
         \<lparr>id_tile = 8, currentPosition = 2\<rparr>], isSolved = False\<rparr>"
  using nonadjacent_click_noop[OF _ shuffled_3_reachable,
      of "\<lparr>id_tile = 8, currentPosition = 2\<rparr>" "\<lparr>id_tile = 4, currentPosition = 4\<rparr>"]
  by (simp add: solvedBoard_def blankTileId_def totalTiles_def getValidMoves_def js_rem_def)

text \<open>Claim C6, as the code has it. The lock is the flag \<^verbatim>\<open>isSolved\<close>, which only
  \<^verbatim>\<open>checkIfSolved\<close> sets, after an accepted move. Once an accepted move has brought the
  board to the solved arrangement, the flag is set, and every later sequence of clicks, on
  any tiles, returns the state as it is: the board unchanged and the flag still true
  (until \<^verbatim>\<open>initializePuzzle\<close> runs again).\<close>

theorem solved_lock:
  assumes "accepted N s c" and "handleTileClick N s c = Inr s1" and "solvedBoard (tiles s1)"
  shows "isSolved s1 \<and> clicks N s1 cs = Inr s1"
proof -
  from assms(1) obtain b where ns: "\<not> isSolved s"
    and b: "find (\<lambda>t. id_tile t = blankTileId N) (tiles s) = Some b"
    and adj: "currentPosition c \<in> set (getValidMoves (currentPosition b) N)"
    by (auto simp: accepted_def split: option.splits)
  have "s1 = checkIfSolved (s\<lparr>tiles := newTiles N (tiles s) c b\<rparr>) (newTiles N (tiles s) c b)"
    using accepted_click[OF ns b adj] assms(2) by simp
  then have "isSolved s1" using assms(3) by (simp add: checkIfSolved_flag checkIfSolved_tiles)
  then show ?thesis using locked_clicks by simp
qed

theorem solved_lock_witness:
  "accepted 3 \<lparr>tiles =
        [\<lparr>id_tile = 0, currentPosition = 0\<rparr>, \<lparr>id_tile = 1, currentPosition = 1\<rparr>,
         \<lparr>id_tile = 2, currentPosition = 2\<rparr>, \<lparr>id_tile = 3, currentPosition = 3\<rparr>,
         \<lparr>id_tile = 4, currentPosition = 4\<rparr>, \<lparr>id_tile = 5, currentPosition = 8\<rparr>,
         \<lparr>id_tile = 6, currentPosition = 6\<rparr>, \<lparr>id_tile = 7, currentPosition = 7\<rparr>,
         \<lparr>id_tile = 8, currentPosition = 5\<rparr>], isSolved = False\<rparr>
      \<lparr>id_tile = 5, currentPosition = 8\<rparr> \<and>
   handleTileClick 3 \<lparr>tiles =
        [\<lparr>id_tile = 0, currentPosition = 0\<rparr>, \<lparr>id_tile = 1, currentPosition = 1\<rparr>,
         \<lparr>id_tile = 2, currentPosition = 2\<rparr>, \<lparr>id_tile = 3, currentPosition = 3\<rparr>,
         \<lparr>id_tile = 4, currentPosition = 4\<rparr>, \<lparr>id_tile = 5, currentPosition = 8\<rparr>,
         \<lparr>id_tile = 6, currentPosition = 6\<rparr>, \<lparr>id_tile = 7, currentPosition = 7\<rparr>,
         \<lparr>id_tile = 8, currentPosition = 5\<rparr>], isSolved = False\<rparr>
      \<lparr>id_tile = 5, currentPosition = 8\<rparr>
     = Inr \<lparr>tiles = initialTiles 3, isSolved = True\<rparr> \<and>
   clicks 3 \<lparr>tiles = initialTiles 3, isSolved = True\<rparr>
     [\<lparr>id_tile = 7, currentPosition = 7\<rparr>, \<lparr>id_tile = 0, currentPosition = 0\<rparr>]
     = Inr \<lparr>tiles = initialTiles 3, isSolved = True\<rparr>"
proof -
  let ?s = "\<lparr>tiles =
        [\<lparr>id_tile = 0, currentPosition = 0\<rparr>, \<lparr>id_tile = 1, currentPosition = 1\<rparr>,
         \<lparr>id_tile = 2, currentPosition = 2\<rparr>, \<lparr>id_tile = 3, currentPosition = 3\<rparr>,
         \<lparr>id_tile = 4, currentPosition = 4\<rparr>, \<lparr>id_tile = 5, currentPosition = 8\<rparr>,
         \<lparr>id_tile = 6, currentPosition = 6\<rparr>, \<lparr>id_tile = 7, currentPosition = 7\<rparr>,
         \<lparr>id_tile = 8, currentPosition = 5\<rparr>], isSolved = False\<rparr>"
  have 1: "accepted 3 ?s \<lparr>id_tile = 5, currentPosition = 8\<rparr>"
    by (simp add: accepted_def blankTileId_def totalTiles_def getValidMoves_def js_rem_def)
  have 2: "handleTileClick 3 ?s \<lparr>id_tile = 5, currentPosition = 8\<rparr>
      = Inr \<lparr>tiles = initialTiles 3, isSolved = True\<rparr>"
    by code_simp
  have 3: "solvedBoard (tiles \<lparr>tiles = initialTiles 3, isSolved = True\<rparr>)"
    by (simp add: initialTiles_solved)
  show ?thesis using solved_lock[OF 1 2 3] 1 2 by blast
qed

text \<open>Claim C6 as it is written fails on a board that \<^verbatim>\<open>initializePuzzle\<close> leaves in the
  solved arrangement: the shuffle below moves the blank to cell 5 and back fifty times, so
  the session starts on the identity board with the flag reset to false, and the click on
  the tile in cell 5 is accepted and moves it.\<close>

theorem solved_lock_counterexample:
  "initializePuzzle 3 (\<lambda>i. if even i then 1 / 4 else 1 / 2) \<lparr>tiles = [], isSolved = False\<rparr>
     = Inr \<lparr>tiles = initialTiles 3, isSolved = False\<rparr> \<and>
   solvedBoard (initialTiles 3) \<and>
   handleTileClick 3 \<lparr>tiles = initialTiles 3, isSolved = False\<rparr> \<lparr>id_tile = 5, currentPosition = 5\<rparr>
     = Inr \<lparr>tiles =
        [\<lparr>id_tile = 0, currentPosition = 0\<rparr>, \<lparr>id_tile = 1, currentPosition = 1\<rparr>,
         \<lparr>id_tile = 2, currentPosition = 2\<rparr>, \<lparr>id_tile = 3, currentPosition = 3\<rparr>,
         \<lparr>id_tile = 4, currentPosition = 4\<rparr>, \<lparr>id_tile = 5, currentPosition = 8\<rparr>,
         \<lparr>id_tile = 6, currentPosition = 6\<rparr>, \<lparr>id_tile = 7, currentPosition = 7\<rparr>,
         \<lparr>id_tile = 8, currentPosition = 5\<rparr>], isSolved = False\<rparr>"
proof -
  have "initializePuzzle 3 (\<lambda>i. if even i then 1 / 4 else 1 / 2) \<lparr>tiles = [], isSolved = False\<rparr>
     = Inr \<lparr>tiles = initialTiles 3, isSolved = False\<rparr>"
    by (rule initialize_alternating)
  moreover have "handleTileClick 3 \<lparr>tiles = initialTiles 3, isSolved = False\<rparr>
      \<lparr>id_tile = 5, currentPosition = 5\<rparr>
     = Inr \<lparr>tiles =
        [\<lparr>id_tile = 0, currentPosition = 0\<rparr>, \<lparr>id_tile = 1, currentPosition = 1\<rparr>,
         \<lparr>id_tile = 2, currentPosition = 2\<rparr>, \<lparr>id_tile = 3, currentPosition = 3\<rparr>,
         \<lparr>id_tile = 4, currentPosition = 4\<rparr>, \<lparr>id_tile = 5, currentPosition = 8\<rparr>,
         \<lparr>id_tile = 6, currentPosition = 6\<rparr>, \<lparr>id_tile = 7, currentPosition = 7\<rparr>,
         \<lparr>id_tile = 8, currentPosition = 5\<rparr>], isSolved = False\<rparr>"
    by code_simp
  ultimately show ?thesis using initialTiles_solved[of 3] by blast
qed

text \<open>Claim C7. The test of \<^verbatim>\<open>checkIfSolved\<close> depends on the board alone and holds if
  and only if every tile's currentPosition equals its id. \<^verbatim>\<open>checkIfSolved\<close> changes
  nothing but the flag, which it sets exactly when the test holds (the flag is false
  whenever \<^verbatim>\<open>handleTileClick\<close> calls it), so after an accepted move the flag is the
  test of the new board. The identity board that \<^verbatim>\<open>initializePuzzle\<close> constructs
  passes the test, for every grid size.\<close>

theorem checkIfSolved_detects:
  "(solvedBoard ts \<longleftrightarrow> (\<forall>t \<in> set ts. currentPosition t = id_tile t)) \<and>
   (isSolved (checkIfSolved s ts) \<longleftrightarrow> isSolved s \<or> solvedBoard ts) \<and>
   checkIfSolved s ts = s\<lparr>isSolved := isSolved (checkIfSolved s ts)\<rparr> \<and>
   (accepted N p c \<and> handleTileClick N p c = Inr p' \<longrightarrow>
      (isSolved p' \<longleftrightarrow> solvedBoard (tiles p'))) \<and>
   solvedBoard (initialTiles N) \<and>
   isSolved (checkIfSolved s (initialTiles N))"
proof -
  have 1: "solvedBoard ts \<longleftrightarrow> (\<forall>t \<in> set ts. currentPosition t = id_tile t)"
    by (auto simp: solvedBoard_def list_all_iff)
  have 2: "checkIfSolved s ts = s\<lparr>isSolved := isSolved (checkIfSolved s ts)\<rparr>"
    by (simp add: checkIfSolved_def Let_def)
  have 3: "isSolved p' \<longleftrightarrow> solvedBoard (tiles p')"
    if a: "accepted N p c" and h: "handleTileClick N p c = Inr p'"
  proof -
    from a obtain b where ns: "\<not> isSolved p"
      and b: "find (\<lambda>t. id_tile t = blankTileId N) (tiles p) = Some b"
      and adj: "currentPosition c \<in> set (getValidMoves (currentPosition b) N)"
      by (auto simp: accepted_def split: option.splits)
    have "p' = checkIfSolved (p\<lparr>tiles := newTiles N (tiles p) c b\<rparr>) (newTiles N (tiles p) c b)"
      using accepted_click[OF ns b adj] h by simp
    then show ?thesis using ns by (simp add: checkIfSolved_flag checkIfSolved_tiles)
  qed
  show ?thesis
    using 1 2 3 checkIfSolved_flag[of s ts] checkIfSolved_flag[of s "initialTiles N"]
      initialTiles_solved[of N] by blast
qed

theorem checkIfSolved_detects_witness:
  "solvedBoard [\<lparr>id_tile = 0, currentPosition = 0\<rparr>, \<lparr>id_tile = 1, currentPosition = 1\<rparr>] \<and>
   \<not> solvedBoard [\<lparr>id_tile = 0, currentPosition = 1\<rparr>, \<lparr>id_tile = 1, currentPosition = 0\<rparr>] \<and>
   \<not> isSolved (checkIfSolved \<lparr>tiles = [], isSolved = False\<rparr>
        [\<lparr>id_tile = 0, currentPosition = 1\<rparr>, \<lparr>id_tile = 1, currentPosition = 0\<rparr>]) \<and>
   isSolved (checkIfSolved \<lparr>tiles = [], isSolved = False\<rparr> (initialTiles 3))"
proof -
  have "solvedBoard [\<lparr>id_tile = 0, currentPosition = 0\<rparr>, \<lparr>id_tile = 1, currentPosition = 1\<rparr>]"
    using checkIfSolved_detects[of "[\<lparr>id_tile = 0, currentPosition = 0\<rparr>,
      \<lparr>id_tile = 1, currentPosition = 1\<rparr>]" "\<lparr>tiles = [], isSolved = False\<rparr>"] by simp
  moreover have n: "\<not> solvedBoard [\<lparr>id_tile = 0, currentPosition = 1\<rparr>,
      \<lparr>id_tile = 1, currentPosition = 0\<rparr>]"
    using checkIfSolved_detects[of "[\<lparr>id_tile = 0, currentPosition = 1\<rparr>,
      \<lparr>id_tile = 1, currentPosition = 0\<rparr>]" "\<lparr>tiles = [], isSolved = False\<rparr>"] by simp
  moreover have "\<not> isSolved (checkIfSolved \<lparr>tiles = [], isSolved = False\<rparr>
        [\<lparr>id_tile = 0, currentPosition = 1\<rparr>, \<lparr>id_tile = 1, currentPosition = 0\<rparr>])"
    using n checkIfSolved_detects[of "[\<lparr>id_tile = 0, currentPosition = 1\<rparr>,
      \<lparr>id_tile = 1, currentPosition = 0\<rparr>]" "\<lparr>tiles = [], isSolved = False\<rparr>"] by simp
  moreover have "isSolved (checkIfSolved \<lparr>tiles = [], isSolved = False\<rparr> (initialTiles 3))"
    using checkIfSolved_detects[where s = "\<lparr>tiles = [], isSolved = False\<rparr>" and N = 3]
    by blast
  ultimately show ?thesis by blast
qed



text \<open>Claim C9. \<^verbatim>\<open>initializePuzzle\<close> returns the board of the specification's shuffle
  with the solved flag false: the identity board of \<open>N\<^sup>2\<close> tiles, with the blank tracked at
  cell \<open>N\<^sup>2 - 1\<close>, after exactly 100 steps. In every step the tracked cell is the cell of
  the blank tile, the chosen cell is one of its valid moves, the tiles of the two cells
  exchange their cells, and the chosen cell is tracked next. The choice follows the random
  number \<open>r\<close> of the step as the code computes it, by the floor of the binary64 product:
  the \<open>k\<close>-th of the \<open>n\<close> valid moves is chosen whenever \<open>k \<le> r n < k + 1 - 2\<^sup>-\<^sup>5\<^sup>2\<close>, and
  only if \<open>k - 2\<^sup>-\<^sup>5\<^sup>2 \<le> r n < k + 1\<close>; so every valid move has a part of \<open>[0, 1)\<close> of the
  same length \<open>1/n\<close>, up to the rounding of the product.\<close>

theorem initialize_refines:
  assumes "2 \<le> N" and "\<forall>i. 0 \<le> rnd i \<and> rnd i \<le> 1 - 1 / 2 ^ 53"
  shows "initializePuzzle N rnd s0 = Inr \<lparr>tiles = fst (spec_shuffle N rnd 100), isSolved = False\<rparr> \<and>
         blankAt N (fst (spec_shuffle N rnd n)) (snd (spec_shuffle N rnd n)) \<and>
         snd (spec_shuffle N rnd (Suc n)) \<in> set (getValidMoves (snd (spec_shuffle N rnd n)) N) \<and>
         (\<forall>k < length (getValidMoves (snd (spec_shuffle N rnd n)) N).
            (real k \<le> rnd n * real (length (getValidMoves (snd (spec_shuffle N rnd n)) N)) \<and>
             rnd n * real (length (getValidMoves (snd (spec_shuffle N rnd n)) N))
               < real k + 1 - 1 / 2 ^ 52
             \<longrightarrow> snd (spec_shuffle N rnd (Suc n))
                   = getValidMoves (snd (spec_shuffle N rnd n)) N ! k) \<and>
            (snd (spec_shuffle N rnd (Suc n)) = getValidMoves (snd (spec_shuffle N rnd n)) N ! k
             \<longrightarrow> real k - 1 / 2 ^ 52
                   \<le> rnd n * real (length (getValidMoves (snd (spec_shuffle N rnd n)) N)) \<and>
                 rnd n * real (length (getValidMoves (snd (spec_shuffle N rnd n)) N)) < real k + 1))"
  using initializePuzzle_refines[OF assms, of s0] spec_shuffle_invariant[OF assms, of n]
    spec_shuffle_legal[OF assms, of n] spec_shuffle_choice[OF assms, of _ n]
  by (simp add: spec_initialize_def)

theorem initialize_refines_witness:
  "initializePuzzle 3 (\<lambda>_. 1 / 4) \<lparr>tiles = [], isSolved = True\<rparr>
     = Inr \<lparr>tiles = fst (spec_shuffle 3 (\<lambda>_. 1 / 4) 100), isSolved = False\<rparr> \<and>
   snd (spec_shuffle 3 (\<lambda>_. 1 / 4) (Suc 0)) \<in> set (getValidMoves (snd (spec_shuffle 3 (\<lambda>_. 1 / 4) 0)) 3)"
  using initialize_refines[of 3 "\<lambda>_. 1 / 4" "\<lparr>tiles = [], isSolved = True\<rparr>" 0] by simp

text \<open>Claim C10. A click on the blank tile changes nothing: for every cell and every
  grid size \<open>N \<ge> 1\<close> the cell is not among its own valid moves, so in every state whose
  tiles have different ids the handler returns the state as it is when the clicked tile
  is the blank.\<close>

theorem blank_click_noop:
  assumes "0 < N" and "distinct (map id_tile (tiles s))"
    and "c \<in> set (tiles s)" and "id_tile c = blankTileId N"
  shows "currentPosition c \<notin> set (getValidMoves (currentPosition c) N) \<and>
         handleTileClick N s c = Inr s"
proof -
  have f: "find (\<lambda>t. id_tile t = blankTileId N) (tiles s) = Some c"
    using find_distinct_map[OF assms(2,3)] assms(4) by simp
  have n: "currentPosition c \<notin> set (getValidMoves (currentPosition c) N)"
    using self_not_adjacent[OF assms(1)] .
  show ?thesis using n rejected_click[OF f n] by simp
qed

theorem blank_click_noop_witness:
  "4 \<notin> set (getValidMoves 4 3) \<and>
   handleTileClick 3 \<lparr>tiles =
        [\<lparr>id_tile = 0, currentPosition = 0\<rparr>, \<lparr>id_tile = 1, currentPosition = 1\<rparr>,
         \<lparr>id_tile = 2, currentPosition = 2\<rparr>, \<lparr>id_tile = 3, currentPosition = 3\<rparr>,
         \<lparr>id_tile = 4, currentPosition = 7\<rparr>, \<lparr>id_tile = 5, currentPosition = 5\<rparr>,
         \<lparr>id_tile = 6, currentPosition = 6\<rparr>, \<lparr>id_tile = 7, currentPosition = 8\<rparr>,
         \<lparr>id_tile = 8, currentPosition = 4\<rparr>], isSolved = False\<rparr>
       \<lparr>id_tile = 8, currentPosition = 4\<rparr>
   = Inr \<lparr>tiles =
        [\<lparr>id_tile = 0, currentPosition = 0\<rparr>, \<lparr>id_tile = 1, currentPosition = 1\<rparr>,
         \<lparr>id_tile = 2, currentPosition = 2\<rparr>, \<lparr>id_tile = 3, currentPosition = 3\<rparr>,
         \<lparr>id_tile = 4, currentPosition = 7\<rparr>, \<lparr>id_tile = 5, currentPosition = 5\<rparr>,
         \<lparr>id_tile = 6, currentPosition = 6\<rparr>, \<lparr>id_tile = 7, currentPosition = 8\<rparr>,
         \<lparr>id_tile = 8, currentPosition = 4\<rparr>], isSolved = False\<rparr>"
  using blank_click_noop[of 3 "\<lparr>tiles =
        [\<lparr>id_tile = 0, currentPosition = 0\<rparr>, \<lparr>id_tile = 1, currentPosition = 1\<rparr>,
         \<lparr>id_tile = 2, currentPosition = 2\<rparr>, \<lparr>id_tile = 3, currentPosition = 3\<rparr>,
         \<lparr>id_tile = 4, currentPosition = 7\<rparr>, \<lparr>id_tile = 5, currentPosition = 5\<rparr>,
         \<lparr>id_tile = 6, currentPosition = 6\<rparr>, \<lparr>id_tile = 7, currentPosition = 8\<rparr>,
         \<lparr>id_tile = 8, currentPosition = 4\<rparr>], isSolved = False\<rparr>"
       "\<lparr>id_tile = 8, currentPosition = 4\<rparr>"]
  by (simp add: blankTileId_def totalTiles_def)

end
